theory Spec2Isabelle
  imports Complex_Main "HOL-Library.Log_Nat"
begin

section \<open>Numbers and rounding\<close>

text \<open>
  Python's \<^verbatim>\<open>round(x)\<close> returns the nearest integer and sends a tie to the even
  neighbour.
\<close>

definition round_py :: "rat \<Rightarrow> int" where
  "round_py v =
     (let f = \<lfloor>v\<rfloor>; d = v - of_int f
      in if d < 1 / 2 then f
         else if 1 / 2 < d then f + 1
         else if even f then f else f + 1)"

text \<open>
  A Python float is a binary number with 53 significant bits, here the rational that it
  denotes. \<open>float_exponent v\<close> is the \<open>e\<close> with \<open>2 ^ e \<le> \<bar>v\<bar> < 2 ^ (e + 1)\<close>, and
  \<open>to_float v\<close> is the float nearest to \<open>v\<close>, a tie going to the even mantissa: the
  value of a decimal literal and the result of every float operation. The exponent is not
  bounded, so overflow, subnormal numbers, infinities and NaN are left out; the distances
  and times of a route are far inside the normal range.
\<close>

definition float_exponent :: "rat \<Rightarrow> int" where
  "float_exponent v =
     (if 1 \<le> \<bar>v\<bar> then bitlen \<lfloor>\<bar>v\<bar>\<rfloor> - 1 else - bitlen (\<lceil>1 / \<bar>v\<bar>\<rceil> - 1))"

definition to_float :: "rat \<Rightarrow> rat" where
  "to_float v =
     (if v = 0 then 0
      else (let u = 2 powi (float_exponent v - 52) in of_int (round_py (v / u)) * u))"

text \<open>The float operations \<^verbatim>\<open>+\<close>, \<^verbatim>\<open>*\<close> and \<^verbatim>\<open>/\<close>: the exact result, rounded.\<close>

definition float_add :: "rat \<Rightarrow> rat \<Rightarrow> rat" where
  "float_add a b = to_float (a + b)"

definition float_mul :: "rat \<Rightarrow> rat \<Rightarrow> rat" where
  "float_mul a b = to_float (a * b)"

definition float_div :: "rat \<Rightarrow> rat \<Rightarrow> rat" where
  "float_div a b = to_float (a / b)"

text \<open>
  \<^verbatim>\<open>round(x, n)\<close> rounds the exact value of the float \<open>x\<close> at the n-th decimal place,
  a tie going to the even digit, and returns the float nearest to that decimal number.
\<close>

definition round_ndigits :: "rat \<Rightarrow> nat \<Rightarrow> rat" where
  "round_ndigits v n = to_float (of_int (round_py (v * 10 ^ n)) / 10 ^ n)"

section \<open>The traffic block (app.py, lines 232 to 246)\<close>

text \<open>
  Line 233 reads \<^verbatim>\<open>current_hour\<close> from the wall clock of the process. Lines 236 to
  246 are modelled as a function of this hour and of \<^verbatim>\<open>result["time_minutes"]\<close>, an
  integer; the product with the factor is taken exactly.
\<close>

record traffic =
  traffic_status :: string
  traffic_factor :: rat
  adjusted_time :: int

text \<open>Lines 236 to 246: the branches on \<^verbatim>\<open>current_hour\<close> and the adjusted time.\<close>

definition traffic_adjust :: "int \<Rightarrow> int \<Rightarrow> traffic" where
  "traffic_adjust current_hour time_minutes =
     (let (status, factor) =
            (if current_hour \<in> set [7, 8, 9, 16, 17, 18] then (''Heavy'', 3 / 2)
             else if current_hour \<in> set [10, 11, 14, 15, 19, 20] then (''Moderate'', 6 / 5)
             else (''Light'', 1))
      in \<lparr>traffic_status = status, traffic_factor = factor,
          adjusted_time = round_py (of_int time_minutes * factor)\<rparr>)"

section \<open>The graph and the third-party calls of find_path\<close>

type_synonym node = int

text \<open>A coordinate is (latitude, longitude), as \<^verbatim>\<open>start_coords\<close> is in the source.\<close>

type_synonym coord = "rat \<times> rat"

record node_data =
  node_y :: rat
  node_x :: rat

text \<open>
  The street network: \<^verbatim>\<open>G.nodes\<close> maps a node id to its attributes \<^verbatim>\<open>y\<close> (latitude)
  and \<^verbatim>\<open>x\<close> (longitude); an edge is (source, target, length), and parallel edges may
  occur.
\<close>

record graph =
  nodes :: "(node \<times> node_data) list"
  edges :: "(node \<times> node \<times> rat) list"

datatype error = KeyError | ValueError | EmptyGraph | InvalidNode | NoPathFound

text \<open>
  find_path calls four functions of third-party libraries (osmnx, networkx, geopy). Their
  code is not part of the repository, so they are parameters of the model; each may raise.
\<close>

record lib =
  nearest_nodes :: "graph \<Rightarrow> rat \<Rightarrow> rat \<Rightarrow> error + node"
  has_path :: "graph \<Rightarrow> node \<Rightarrow> node \<Rightarrow> error + bool"
  astar_path :: "graph \<Rightarrow> node \<Rightarrow> node \<Rightarrow> string \<Rightarrow> error + node list"
  distance_km :: "coord \<Rightarrow> coord \<Rightarrow> error + rat"

section \<open>find_path (app.py, lines 61 to 95)\<close>

text \<open>The two dictionaries that find_path returns.\<close>

datatype result =
  Success (route : "coord list") (distance : rat) (time_minutes : int)
  | Failure (error_message : string)

fun success :: "result \<Rightarrow> bool" where
  "success (Success r d t) = True"
| "success (Failure m) = False"

text \<open>Line 72: \<^verbatim>\<open>G.nodes[node]\<close> raises KeyError for a node that is not in the graph.\<close>

fun route_coords :: "graph \<Rightarrow> node list \<Rightarrow> error + coord list" where
  "route_coords G [] = Inr []"
| "route_coords G (n # ns) =
     (case map_of (nodes G) n of
        None \<Rightarrow> Inl KeyError
      | Some a \<Rightarrow>
          (case route_coords G ns of
             Inl e \<Rightarrow> Inl e
           | Inr cs \<Rightarrow> Inr ((node_y a, node_x a) # cs)))"

text \<open>
  Lines 75 to 79: the loop adds the distance of each pair of consecutive coordinates to
  \<^verbatim>\<open>total_distance\<close>, here the accumulator. The library returns a float, and the
  addition is a float addition.
\<close>

fun total_distance :: "(coord \<Rightarrow> coord \<Rightarrow> error + rat) \<Rightarrow> rat \<Rightarrow> coord list \<Rightarrow> error + rat" where
  "total_distance d acc (a # b # cs) =
     (case d a b of
        Inl e \<Rightarrow> Inl e
      | Inr k \<Rightarrow> total_distance d (float_add acc (to_float k)) (b # cs))"
| "total_distance d acc cs = Inr acc"

definition speeds :: "string \<rightharpoonup> int" where
  "speeds = map_of [(''car'', 50), (''walk'', 5), (''bike'', 15)]"

definition find_path :: "lib \<Rightarrow> graph \<Rightarrow> coord \<Rightarrow> coord \<Rightarrow> string \<Rightarrow> error + result" where
  "find_path L G start_coords goal_coords mode =
     (case nearest_nodes L G (snd start_coords) (fst start_coords) of
        Inl e \<Rightarrow> Inl e
      | Inr start_node \<Rightarrow>
     (case nearest_nodes L G (snd goal_coords) (fst goal_coords) of
        Inl e \<Rightarrow> Inl e
      | Inr goal_node \<Rightarrow>
     (case has_path L G start_node goal_node of
        Inl e \<Rightarrow> Inl e
      | Inr False \<Rightarrow> Inr (Failure ''No path found between these points.'')
      | Inr True \<Rightarrow>
     (case astar_path L G start_node goal_node ''length'' of
        Inl e \<Rightarrow> Inl e
      | Inr path \<Rightarrow>
     (case route_coords G path of
        Inl e \<Rightarrow> Inl e
      | Inr rc \<Rightarrow>
     (case total_distance (distance_km L) 0 rc of
        Inl e \<Rightarrow> Inl e
      | Inr total_km \<Rightarrow>
     (case speeds mode of
        None \<Rightarrow> Inl KeyError
      | Some v \<Rightarrow>
          Inr (Success rc (round_ndigits total_km 2)
                (round_py (float_mul (float_div total_km (of_int v)) 60))))))))))"


text \<open>
  The sum of a list of distances as the loop of find_path computes it: from the left, in
  float arithmetic.
\<close>

definition float_sum :: "rat list \<Rightarrow> rat" where
  "float_sum ks = foldl (\<lambda>acc k. float_add acc (to_float k)) 0 ks"

section \<open>The third-party calls, modelled from the spec\<close>

text \<open>
  The functions that snap a coordinate to a node and that search the graph belong to
  osmnx and networkx. Where a property is about what they return, they are modelled from
  the spec's sections 4.1 to 4.3.
\<close>

subsection \<open>SpatialIndex\<close>

text \<open>
  Modelled from the spec: the scan behind \<^verbatim>\<open>SpatialIndex.nearest\<close> (section 4.1), which
  stands for the missing \<^verbatim>\<open>ox.nearest_nodes\<close>. It carries the best node seen so far and
  its distance; a node replaces it when it is strictly closer, or as close with a lower id.
  This is the linear scan that the spec accepts for small graphs. The great-circle distance
  \<^verbatim>\<open>GeoMetric.distanceKm\<close> (section 4.2) is missing as well; it needs trigonometric
  functions on floats and is the parameter \<open>geo\<close>.
\<close>

fun nearest_from :: "(coord \<Rightarrow> coord \<Rightarrow> rat) \<Rightarrow> coord \<Rightarrow> node \<times> rat \<Rightarrow> (node \<times> node_data) list \<Rightarrow> node \<times> rat" where
  "nearest_from geo c best [] = best"
| "nearest_from geo c (bn, bd) ((n, a) # ns) =
     (let d = geo (node_y a, node_x a) c
      in nearest_from geo c (if d < bd \<or> (d = bd \<and> n < bn) then (n, d) else (bn, bd)) ns)"

text \<open>
  Modelled from the spec: \<^verbatim>\<open>SpatialIndex.nearest\<close> (section 4.1), for the missing
  \<^verbatim>\<open>ox.nearest_nodes\<close>: the node that minimises the distance to the input, ties broken
  by the lowest node id; \<^verbatim>\<open>EmptyGraph\<close> on a graph without nodes.
\<close>

definition nearest :: "(coord \<Rightarrow> coord \<Rightarrow> rat) \<Rightarrow> graph \<Rightarrow> coord \<Rightarrow> error + node" where
  "nearest geo G c =
     (case nodes G of
        [] \<Rightarrow> Inl EmptyGraph
      | (n, a) # ns \<Rightarrow> Inr (fst (nearest_from geo c (n, geo (node_y a, node_x a) c) ns)))"

subsection \<open>PathSearch\<close>

text \<open>
  An entry records a node with its g-score and its predecessor. The open set and the
  closed set are lists of entries; the closed list has the node closed last at its head.
\<close>

type_synonym entry = "node \<times> rat \<times> node option"

text \<open>
  Modelled from the spec: the order of the open set of the missing search (section 4.3):
  smaller f = g + h first, among equal f the higher g, among equal g the lower node id.
  \<open>best\<close> picks the first entry in this order.
\<close>

definition better :: "(node \<Rightarrow> rat) \<Rightarrow> entry \<Rightarrow> entry \<Rightarrow> bool" where
  "better h x y =
     (case (x, y) of ((v, g, p), (v', g', p')) \<Rightarrow>
        g + h v < g' + h v'
        \<or> (g + h v = g' + h v' \<and> (g' < g \<or> (g = g' \<and> v < v'))))"

fun best :: "(node \<Rightarrow> rat) \<Rightarrow> entry \<Rightarrow> entry list \<Rightarrow> entry" where
  "best h b [] = b"
| "best h b (x # xs) = best h (if better h x b then x else b) xs"

text \<open>
  Modelled from the spec: the relaxation of the missing search (section 4.3), for one edge
  (a, b, w) while \<open>u\<close> is expanded with g-score \<open>gu\<close>. An edge of another node or into
  a closed node changes nothing; a node met for the first time enters the open set; a known
  node gets the new g-score and predecessor when the new g-score is smaller.
\<close>

fun relax :: "entry list \<Rightarrow> node \<Rightarrow> rat \<Rightarrow> node \<times> node \<times> rat \<Rightarrow> entry list \<Rightarrow> entry list" where
  "relax cls u gu (a, b, w) opn =
     (if a \<noteq> u \<or> b \<in> fst ` set cls then opn
      else (case map_of opn b of
              None \<Rightarrow> opn @ [(b, gu + w, Some u)]
            | Some (gb, pb) \<Rightarrow>
                if gu + w < gb
                then map (\<lambda>x. if fst x = b then (b, gu + w, Some u) else x) opn
                else opn))"

text \<open>
  Modelled from the spec: the path reconstruction of the missing search (section 4.3),
  which follows the recorded predecessors back to the start. A predecessor is closed before
  its successors, so it stands further down the closed list.
\<close>

fun backtrack :: "entry list \<Rightarrow> node option \<Rightarrow> node list" where
  "backtrack cls None = []"
| "backtrack [] (Some p) = [p]"
| "backtrack ((c, gc, pc) # cls) (Some p) =
     (if c = p then p # backtrack cls pc else backtrack cls (Some p))"

text \<open>The lemmas that the termination of the search loop needs.\<close>

lemma best_in: "best h b xs \<in> set (b # xs)"
  by (induction xs arbitrary: b) auto

lemma relax_nodes: "fst ` set (relax cls u gu e opn) \<subseteq> fst ` set opn \<union> {fst (snd e)}"
  by (cases e) (auto split: option.splits if_splits)

lemma fold_relax_nodes:
  "fst ` set (fold (relax cls u gu) es opn) \<subseteq> fst ` set opn \<union> (\<lambda>e. fst (snd e)) ` set es"
proof (induction es arbitrary: opn)
  case Nil
  then show ?case by simp
next
  case (Cons e es)
  show ?case
    using Cons.IH [of "relax cls u gu e opn"] relax_nodes [of cls u gu e opn]
    by auto
qed

lemma filter_shorter: "x \<in> set xs \<Longrightarrow> length (filter (\<lambda>y. fst y \<noteq> fst x) xs) < length xs"
  by (rule length_filter_less) simp_all

lemma skip_same_nodes:
  assumes "u \<in> C"
  shows "(T \<union> fst ` set (filter (\<lambda>y. fst y \<noteq> u) xs)) - C = (T \<union> fst ` set xs) - C"
proof -
  have "fst ` set xs \<subseteq> fst ` set (filter (\<lambda>y. fst y \<noteq> u) xs) \<union> {u}"
    by force
  moreover have "fst ` set (filter (\<lambda>y. fst y \<noteq> u) xs) \<subseteq> fst ` set xs"
    by force
  ultimately show ?thesis
    using assms by blast
qed

lemma expand_fewer_nodes:
  assumes "x \<in> set xs" and "fst x \<notin> C" and "N \<subseteq> fst ` set xs \<union> T" and "finite T"
  shows "card ((T \<union> N) - insert (fst x) C) < card ((T \<union> fst ` set xs) - C)"
proof (rule psubset_card_mono)
  show "finite ((T \<union> fst ` set xs) - C)"
    using assms(4) by simp
  have "fst x \<in> (T \<union> fst ` set xs) - C"
    using assms(1,2) by simp
  moreover have "(T \<union> N) - insert (fst x) C \<subseteq> (T \<union> fst ` set xs) - C"
    using assms(3) by blast
  ultimately show "(T \<union> N) - insert (fst x) C \<subset> (T \<union> fst ` set xs) - C"
    by blast
qed

text \<open>
  Modelled from the spec: the loop of \<^verbatim>\<open>PathSearch.findPath\<close> (section 4.3), which
  stands for the missing \<^verbatim>\<open>nx.astar_path\<close>. An empty open set ends the search with
  \<^verbatim>\<open>NoPathFound\<close>. Otherwise the best entry is popped; if it is the goal, the path is
  read off the predecessors and reversed; if not, the node is closed and its edges are
  relaxed. The closed set prevents re-expansion: an entry whose node is closed already is
  dropped.
\<close>

function astar_loop :: "graph \<Rightarrow> (node \<Rightarrow> rat) \<Rightarrow> node \<Rightarrow> entry list \<Rightarrow> entry list \<Rightarrow> error + node list" where
  "astar_loop G h goal [] cls = Inl NoPathFound"
| "astar_loop G h goal (e # es) cls =
     (let b = best h e es; u = fst b; rest = filter (\<lambda>x. fst x \<noteq> u) (e # es)
      in if u = goal then Inr (rev (u # backtrack cls (snd (snd b))))
         else if u \<in> fst ` set cls then astar_loop G h goal rest cls
         else astar_loop G h goal (fold (relax (b # cls) u (fst (snd b))) (edges G) rest) (b # cls))"
  by pat_completeness auto
termination
proof (relation "measures
    [\<lambda>(G, h, goal, opn, cls). card (((\<lambda>e. fst (snd e)) ` set (edges G) \<union> fst ` set opn) - fst ` set cls),
     \<lambda>(G, h, goal, opn, cls). length opn]", goal_cases)
  case 1
  then show ?case by simp
next
  case (2 G h goal e es cls b u rest)
  have "b \<in> set (e # es)"
    unfolding 2(1) by (rule best_in)
  from filter_shorter [OF this] have "length rest < length (e # es)"
    unfolding 2(2,3) .
  moreover have "((\<lambda>e. fst (snd e)) ` set (edges G) \<union> fst ` set rest) - fst ` set cls
      = ((\<lambda>e. fst (snd e)) ` set (edges G) \<union> fst ` set (e # es)) - fst ` set cls"
    unfolding 2(3) using 2(5) by (rule skip_same_nodes)
  ultimately show ?case
    by simp
next
  case (3 G h goal e es cls b u rest)
  let ?T = "(\<lambda>e. fst (snd e)) ` set (edges G)"
  let ?N = "fst ` set (fold (relax (b # cls) u (fst (snd b))) (edges G) rest)"
  have bin: "b \<in> set (e # es)"
    unfolding 3(1) by (rule best_in)
  have "?N \<subseteq> fst ` set rest \<union> ?T"
    by (rule fold_relax_nodes)
  moreover have "fst ` set rest \<subseteq> fst ` set (e # es)"
    unfolding 3(3) by (rule image_mono) (rule filter_is_subset)
  ultimately have sub: "?N \<subseteq> fst ` set (e # es) \<union> ?T"
    by blast
  have "fst b \<notin> fst ` set cls"
    using 3(2,5) by simp
  from expand_fewer_nodes [OF bin this sub] show ?case
    unfolding 3(2) by simp
qed

text \<open>
  Modelled from the spec: \<^verbatim>\<open>PathSearch.findPath\<close> (section 4.3). \<open>h u t\<close> is the
  heuristic estimate from \<open>u\<close> to the goal \<open>t\<close> in the unit of the stored lengths: the
  great-circle distance in the spec, constantly 0 for the call in find_path, which passes
  no heuristic. \<^verbatim>\<open>InvalidNode\<close> is the answer when start or goal is not in the graph.
\<close>

definition findPath :: "(node \<Rightarrow> node \<Rightarrow> rat) \<Rightarrow> graph \<Rightarrow> node \<Rightarrow> node \<Rightarrow> error + node list" where
  "findPath h G s t =
     (if s \<notin> fst ` set (nodes G) \<or> t \<notin> fst ` set (nodes G) then Inl InvalidNode
      else astar_loop G (\<lambda>v. h v t) t [(s, 0, None)] [])"

text \<open>
  Modelled from the spec: the library as the spec describes it. \<^verbatim>\<open>nx.has_path\<close>, which
  the spec does not name, says whether the search finds a path.
\<close>

definition spec_lib :: "(coord \<Rightarrow> coord \<Rightarrow> rat) \<Rightarrow> (node \<Rightarrow> node \<Rightarrow> rat) \<Rightarrow> lib" where
  "spec_lib geo h =
     \<lparr>nearest_nodes = (\<lambda>G X Y. nearest geo G (Y, X)),
      has_path = (\<lambda>G s t. case findPath h G s t of
                              Inr p \<Rightarrow> Inr True
                            | Inl NoPathFound \<Rightarrow> Inr False
                            | Inl e \<Rightarrow> Inl e),
      astar_path = (\<lambda>G s t w. findPath h G s t),
      distance_km = (\<lambda>a b. Inr (geo a b))\<rparr>"

subsection \<open>Walks and their weight\<close>

text \<open>
  A walk from \<open>u\<close> to \<open>v\<close> is a chain of stored edges; its weight is the sum of their
  lengths, and \<open>walk_nodes\<close> lists the nodes that it visits. A heuristic is consistent
  when it obeys the triangle inequality along every edge.
\<close>

fun walk :: "graph \<Rightarrow> node \<Rightarrow> (node \<times> node \<times> rat) list \<Rightarrow> node \<Rightarrow> bool" where
  "walk G u [] v = (u = v)"
| "walk G u ((a, b, w) # es) v = (a = u \<and> (a, b, w) \<in> set (edges G) \<and> walk G b es v)"

definition weight :: "(node \<times> node \<times> rat) list \<Rightarrow> rat" where
  "weight es = sum_list (map (\<lambda>e. snd (snd e)) es)"

definition consistent :: "graph \<Rightarrow> (node \<Rightarrow> rat) \<Rightarrow> bool" where
  "consistent G h = (\<forall>e \<in> set (edges G). h (fst e) \<le> snd (snd e) + h (fst (snd e)))"

definition walk_nodes :: "node \<Rightarrow> (node \<times> node \<times> rat) list \<Rightarrow> node list" where
  "walk_nodes s es = s # map (\<lambda>e. fst (snd e)) es"

subsection \<open>Invariants of the search\<close>

text \<open>
  An entry is justified when it is the start with g-score 0 or when it extends the entry
  of a closed node by one stored edge; the closed list is a chain of justified entries
  with distinct nodes. \<open>inv_reach\<close> is the part of the loop invariant that needs no
  assumption on the heuristic, \<open>inv_opt\<close> the part about the g-scores.
\<close>

definition ok_entry :: "graph \<Rightarrow> node \<Rightarrow> entry list \<Rightarrow> entry \<Rightarrow> bool" where
  "ok_entry G s cls x =
     (case snd (snd x) of
        None \<Rightarrow> fst x = s \<and> fst (snd x) = 0
      | Some u \<Rightarrow> \<exists>gu pu w. (u, gu, pu) \<in> set cls \<and> (u, fst x, w) \<in> set (edges G)
                    \<and> fst (snd x) = gu + w)"

fun chain_ok :: "graph \<Rightarrow> node \<Rightarrow> entry list \<Rightarrow> bool" where
  "chain_ok G s [] = True"
| "chain_ok G s (x # cls) = (ok_entry G s cls x \<and> fst x \<notin> fst ` set cls \<and> chain_ok G s cls)"

definition score :: "(node \<Rightarrow> rat) \<Rightarrow> entry \<Rightarrow> rat" where
  "score h x = fst (snd x) + h (fst x)"

definition inv_reach :: "graph \<Rightarrow> node \<Rightarrow> node \<Rightarrow> entry list \<Rightarrow> entry list \<Rightarrow> bool" where
  "inv_reach G s t opn cls =
     (distinct (map fst opn)
      \<and> fst ` set opn \<inter> fst ` set cls = {}
      \<and> t \<notin> fst ` set cls
      \<and> s \<in> fst ` set opn \<union> fst ` set cls
      \<and> (\<forall>e \<in> set (edges G). fst e \<in> fst ` set cls \<longrightarrow> fst (snd e) \<in> fst ` set opn \<union> fst ` set cls)
      \<and> chain_ok G s cls
      \<and> (\<forall>x \<in> set opn. ok_entry G s cls x))"

definition inv_opt :: "graph \<Rightarrow> (node \<Rightarrow> rat) \<Rightarrow> node \<Rightarrow> entry list \<Rightarrow> entry list \<Rightarrow> bool" where
  "inv_opt G h s opn cls =
     ((\<exists>g p. (s, g, p) \<in> set opn \<union> set cls \<and> g \<le> 0)
      \<and> (\<forall>x \<in> set cls. \<forall>e \<in> set (edges G). fst e = fst x \<longrightarrow>
            (\<exists>gz pz. (fst (snd e), gz, pz) \<in> set opn \<union> set cls \<and> gz \<le> fst (snd x) + snd (snd e)))
      \<and> (\<forall>z \<in> set cls. \<forall>y \<in> set opn. score h z \<le> score h y))"

section \<open>Example data\<close>

text \<open>
  Three nodes on the equator, 0.01 degrees apart, joined in a line; the stored lengths are
  in metres. The example library snaps by longitude, reports every pair as connected,
  returns the nodes between the two ends as the path and measures 111 km per degree.
\<close>

definition example_graph :: graph where
  "example_graph =
     \<lparr>nodes = [(1, \<lparr>node_y = 0, node_x = 0\<rparr>), (2, \<lparr>node_y = 0, node_x = 1 / 100\<rparr>),
               (3, \<lparr>node_y = 0, node_x = 2 / 100\<rparr>)],
      edges = [(1, 2, 1100), (2, 1, 1100), (2, 3, 1100), (3, 2, 1100)]\<rparr>"

definition example_lib :: lib where
  "example_lib =
     \<lparr>nearest_nodes = (\<lambda>G X Y. Inr (if X < 1 / 200 then 1 else if X < 3 / 200 then 2 else 3)),
      has_path = (\<lambda>G s t. Inr True),
      astar_path = (\<lambda>G s t w. Inr (if s \<le> t then [s..t] else rev [t..s])),
      distance_km = (\<lambda>a b. Inr (111 * (\<bar>fst a - fst b\<bar> + \<bar>snd a - snd b\<bar>)))\<rparr>"

text \<open>
  A distance for the examples, 111 km per degree along the axes; a graph with parallel
  edges in which the cheapest way from 1 to 3 is the detour over 4 and 2; and a graph of
  two components.
\<close>

definition taxicab :: "coord \<Rightarrow> coord \<Rightarrow> rat" where
  "taxicab a b = 111 * (\<bar>fst a - fst b\<bar> + \<bar>snd a - snd b\<bar>)"

definition detour_graph :: graph where
  "detour_graph =
     \<lparr>nodes = [(1, \<lparr>node_y = 0, node_x = 0\<rparr>), (2, \<lparr>node_y = 0, node_x = 1\<rparr>),
               (3, \<lparr>node_y = 0, node_x = 2\<rparr>), (4, \<lparr>node_y = 1, node_x = 1\<rparr>)],
      edges = [(1, 2, 5), (1, 2, 3), (2, 3, 4), (1, 4, 1), (4, 2, 1), (4, 3, 7), (2, 1, 1), (3, 3, 0)]\<rparr>"

definition islands_graph :: graph where
  "islands_graph =
     \<lparr>nodes = [(1, \<lparr>node_y = 0, node_x = 0\<rparr>), (2, \<lparr>node_y = 0, node_x = 1 / 100\<rparr>),
               (3, \<lparr>node_y = 1, node_x = 1\<rparr>), (4, \<lparr>node_y = 1, node_x = 101 / 100\<rparr>)],
      edges = [(1, 2, 1100), (2, 1, 1100), (3, 4, 1100), (4, 3, 1100)]\<rparr>"

section \<open>Rounding lemmas\<close>

lemma round_py_of_int: "round_py (of_int k) = k"
  by (simp add: round_py_def)

lemma floor_le_round_py: "\<lfloor>v\<rfloor> \<le> round_py v"
  by (simp add: round_py_def Let_def)

lemma round_py_ge_int:
  assumes "of_int k \<le> v"
  shows "k \<le> round_py v"
proof -
  have "k \<le> \<lfloor>v\<rfloor>"
    using assms by (simp add: le_floor_iff)
  also have "\<lfloor>v\<rfloor> \<le> round_py v"
    by (rule floor_le_round_py)
  finally show ?thesis .
qed

lemma round_py_nonneg: "0 \<le> v \<Longrightarrow> 0 \<le> round_py v"
  using round_py_ge_int [of 0 v] by simp

lemma round_py_nearest: "\<bar>of_int (round_py v) - v\<bar> \<le> 1 / 2"
proof -
  have "of_int \<lfloor>v\<rfloor> \<le> v" and "v < of_int \<lfloor>v\<rfloor> + 1"
    by linarith+
  then show ?thesis
    by (auto simp: round_py_def Let_def abs_le_iff)
qed

lemma to_float_zero: "to_float 0 = 0"
  by (simp add: to_float_def)

lemma to_float_nonneg: "0 \<le> v \<Longrightarrow> 0 \<le> to_float v"
  by (simp add: to_float_def Let_def round_py_nonneg)

lemma round_ndigits_nonneg: "0 \<le> v \<Longrightarrow> 0 \<le> round_ndigits v n"
  by (simp add: round_ndigits_def round_py_nonneg to_float_nonneg)

text \<open>The exponent is a lower bound, so rounding to a float moves a number by at most
  the fraction 2 ^ -53 of its size.\<close>

lemma float_exponent_le:
  assumes "v \<noteq> 0"
  shows "2 powi float_exponent v \<le> \<bar>v\<bar>"
proof (cases "1 \<le> \<bar>v\<bar>")
  case True
  let ?n = "\<lfloor>\<bar>v\<bar>\<rfloor>"
  from True have n: "0 < ?n"
    by simp
  from bitlen_bounds [OF n] have "2 ^ nat (bitlen ?n - 1) \<le> ?n"
    by simp
  then have "(of_int (2 ^ nat (bitlen ?n - 1)) :: rat) \<le> of_int ?n"
    by (simp only: of_int_le_iff)
  also have "\<dots> \<le> \<bar>v\<bar>"
    by simp
  finally have "(2::rat) ^ nat (bitlen ?n - 1) \<le> \<bar>v\<bar>"
    by simp
  moreover have "0 \<le> bitlen ?n - 1"
    using n by (simp add: bitlen_alt_def)
  ultimately show ?thesis
    using True by (simp add: float_exponent_def power_int_def)
next
  case False
  let ?a = "\<bar>v\<bar>"
  let ?m = "\<lceil>1 / ?a\<rceil> - 1"
  from assms False have a: "0 < ?a" "?a < 1"
    by simp_all
  then have "1 < 1 / ?a"
    by simp
  then have m: "0 < ?m"
    by (simp add: less_ceiling_iff)
  from bitlen_bounds [OF m] have "?m < 2 ^ nat (bitlen ?m)"
    by simp
  then have "\<lceil>1 / ?a\<rceil> \<le> 2 ^ nat (bitlen ?m)"
    by simp
  then have "1 / ?a \<le> of_int (2 ^ nat (bitlen ?m))"
    by (simp only: ceiling_le_iff)
  then have "1 / ?a \<le> 2 ^ nat (bitlen ?m)"
    by simp
  with a(1) have "1 \<le> 2 ^ nat (bitlen ?m) * ?a"
    by (simp add: field_simps)
  then have "(1 / 2) ^ nat (bitlen ?m) \<le> ?a"
    by (simp add: power_one_over field_simps)
  moreover have "0 < bitlen ?m"
    using m by (simp add: bitlen_alt_def)
  ultimately show ?thesis
    using False by (simp add: float_exponent_def power_int_def)
qed

lemma to_float_error: "\<bar>to_float v - v\<bar> \<le> \<bar>v\<bar> / 2 ^ 53"
proof (cases "v = 0")
  case True
  then show ?thesis
    by (simp add: to_float_def)
next
  case False
  define u :: rat where "u = 2 powi (float_exponent v - 52)"
  have u: "0 < u"
    by (simp add: u_def)
  have "to_float v - v = (of_int (round_py (v / u)) - v / u) * u"
    using False u by (simp add: to_float_def u_def [symmetric] Let_def algebra_simps)
  then have "\<bar>to_float v - v\<bar> = \<bar>of_int (round_py (v / u)) - v / u\<bar> * u"
    using u by (simp add: abs_mult)
  also have "\<dots> \<le> (1 / 2) * u"
    using round_py_nearest [of "v / u"] u by (intro mult_right_mono) simp_all
  also have "(1 / 2) * u = 2 powi float_exponent v / 2 ^ 53"
    by (simp add: u_def power_int_diff)
  also have "\<dots> \<le> \<bar>v\<bar> / 2 ^ 53"
    using float_exponent_le [OF False] by (intro divide_right_mono) simp_all
  finally show ?thesis .
qed

section \<open>The traffic block\<close>

text \<open>
  Claim C6. For every hour and every base time, the factor is 1.5 exactly in the hours
  7, 8, 9, 16, 17, 18, it is 1.2 exactly in the hours 10, 11, 14, 15, 19, 20 and 1.0 in
  every other hour; the adjusted time is the rounded product of base time and factor.
  Base time 100 gives (1.5, 150) at 8 o'clock, (1.2, 120) at 11 and (1.0, 100) at 2.
\<close>

theorem traffic_adjust_table:
  "(traffic_factor (traffic_adjust h t) = 3 / 2) = (h \<in> {7, 8, 9, 16, 17, 18})
   \<and> (traffic_factor (traffic_adjust h t) = 6 / 5) = (h \<in> {10, 11, 14, 15, 19, 20})
   \<and> (traffic_factor (traffic_adjust h t) = 1) = (h \<notin> {7, 8, 9, 16, 17, 18} \<union> {10, 11, 14, 15, 19, 20})
   \<and> adjusted_time (traffic_adjust h t) = round_py (of_int t * traffic_factor (traffic_adjust h t))
   \<and> (traffic_factor (traffic_adjust 8 100), adjusted_time (traffic_adjust 8 100)) = (3 / 2, 150)
   \<and> (traffic_factor (traffic_adjust 11 100), adjusted_time (traffic_adjust 11 100)) = (6 / 5, 120)
   \<and> (traffic_factor (traffic_adjust 2 100), adjusted_time (traffic_adjust 2 100)) = (1, 100)"
  by (simp add: traffic_adjust_def round_py_def Let_def)

text \<open>
  Claim C10. For every hour and every base time that is not negative, the factor is one
  of 1.0, 1.2 and 1.5, hence at least 1, and the adjusted time is at least the base time.
\<close>

theorem traffic_only_delays:
  assumes "0 \<le> t"
  shows "traffic_factor (traffic_adjust h t) \<in> {1, 6 / 5, 3 / 2}
         \<and> 1 \<le> traffic_factor (traffic_adjust h t)
         \<and> t \<le> adjusted_time (traffic_adjust h t)"
proof -
  let ?f = "traffic_factor (traffic_adjust h t)"
  have f: "?f \<in> {1, 6 / 5, 3 / 2}"
    by (simp add: traffic_adjust_def Let_def)
  then have one: "1 \<le> ?f"
    by auto
  have adj: "adjusted_time (traffic_adjust h t) = round_py (of_int t * ?f)"
    by (simp add: traffic_adjust_def Let_def)
  have "(of_int t :: rat) * 1 \<le> of_int t * ?f"
    using assms one by (intro mult_left_mono) simp_all
  then have "t \<le> round_py (of_int t * ?f)"
    by (intro round_py_ge_int) simp
  with f one adj show ?thesis
    by simp
qed

theorem traffic_only_delays_witness:
  "(0::int) \<le> 3 \<and> traffic_factor (traffic_adjust 8 3) = 3 / 2 \<and> adjusted_time (traffic_adjust 8 3) = 4
   \<and> 3 \<le> adjusted_time (traffic_adjust 8 3)"
proof -
  have h: "(0::int) \<le> 3"
    by simp
  have c: "traffic_factor (traffic_adjust 8 3) = 3 / 2 \<and> adjusted_time (traffic_adjust 8 3) = 4"
    by code_simp
  from traffic_only_delays [OF h, of 8] h c show ?thesis
    by blast
qed

section \<open>find_path\<close>

lemma total_distance_sum:
  "total_distance d acc cs = Inr tot \<Longrightarrow>
   \<exists>ks. map (\<lambda>(a, b). d a b) (zip cs (tl cs)) = map Inr ks
        \<and> tot = foldl (\<lambda>acc k. float_add acc (to_float k)) acc ks"
proof (induction d acc cs arbitrary: tot rule: total_distance.induct)
  case (1 d acc a b cs)
  then obtain k where k: "d a b = Inr k"
    and rest: "total_distance d (float_add acc (to_float k)) (b # cs) = Inr tot"
    by (auto split: sum.splits)
  from "1.IH" [OF k rest] obtain ks where
    "map (\<lambda>(a, b). d a b) (zip (b # cs) (tl (b # cs))) = map Inr ks"
    "tot = foldl (\<lambda>acc k. float_add acc (to_float k)) (float_add acc (to_float k)) ks"
    by blast
  with k have "map (\<lambda>(a, b). d a b) (zip (a # b # cs) (tl (a # b # cs))) = map Inr (k # ks)
      \<and> tot = foldl (\<lambda>acc k. float_add acc (to_float k)) acc (k # ks)"
    by simp
  then show ?case
    by blast
qed simp_all

lemma total_distance_float_sum:
  "total_distance d 0 cs = Inr tot \<Longrightarrow>
   \<exists>ks. map (\<lambda>(a, b). d a b) (zip cs (tl cs)) = map Inr ks \<and> tot = float_sum ks"
  unfolding float_sum_def by (rule total_distance_sum)

lemma find_path_SuccessD:
  assumes "find_path L G sc gc mode = Inr (Success rc dk t)"
  shows "\<exists>s g path tot v.
           nearest_nodes L G (snd sc) (fst sc) = Inr s
         \<and> nearest_nodes L G (snd gc) (fst gc) = Inr g
         \<and> has_path L G s g = Inr True
         \<and> astar_path L G s g ''length'' = Inr path
         \<and> route_coords G path = Inr rc
         \<and> total_distance (distance_km L) 0 rc = Inr tot
         \<and> speeds mode = Some v
         \<and> dk = round_ndigits tot 2
         \<and> t = round_py (float_mul (float_div tot (of_int v)) 60)"
  using assms unfolding find_path_def
  by (auto split: sum.splits bool.splits option.splits)

lemma total_distance_nonneg:
  "(\<And>a b k. d a b = Inr k \<Longrightarrow> 0 \<le> k) \<Longrightarrow> total_distance d acc cs = Inr tot \<Longrightarrow> 0 \<le> acc
     \<Longrightarrow> 0 \<le> tot"
proof (induction d acc cs arbitrary: tot rule: total_distance.induct)
  case (1 d acc a b cs)
  from "1.prems"(2) obtain k where k: "d a b = Inr k"
    and rest: "total_distance d (float_add acc (to_float k)) (b # cs) = Inr tot"
    by (auto split: sum.splits)
  from "1.prems"(1) [OF k] have "0 \<le> to_float k"
    by (rule to_float_nonneg)
  with "1.prems"(3) have "0 \<le> float_add acc (to_float k)"
    by (simp add: float_add_def to_float_nonneg)
  from "1.IH" [OF k "1.prems"(1) rest this] show ?case
    by simp
qed simp_all

lemma route_coords_length: "route_coords G p = Inr cs \<Longrightarrow> length cs = length p"
  by (induction p arbitrary: cs) (auto split: option.splits sum.splits)

lemma speeds_dom: "dom speeds = {''car'', ''walk'', ''bike''}"
  by (auto simp: speeds_def split: if_splits)

lemma speeds_pos: "speeds mode = Some v \<Longrightarrow> 0 < v"
  by (auto simp: speeds_def split: if_splits)

text \<open>
  The two float operations of the time estimate move the exact value by at most the
  fraction 2 ^ -51 of its size.
\<close>

lemma minutes_error:
  "\<bar>float_mul (float_div x v) 60 - x / v * 60\<bar> \<le> \<bar>x / v * 60\<bar> / 2 ^ 51"
proof -
  define q where "q = x / v"
  define y where "y = to_float q"
  have 1: "\<bar>y - q\<bar> \<le> \<bar>q\<bar> / 2 ^ 53"
    unfolding y_def by (rule to_float_error)
  then have "\<bar>y\<bar> \<le> \<bar>q\<bar> + \<bar>q\<bar> / 2 ^ 53"
    by linarith
  then have 2: "\<bar>y\<bar> \<le> 2 * \<bar>q\<bar>"
    by simp
  have "\<bar>to_float (y * 60) - y * 60\<bar> \<le> \<bar>y * 60\<bar> / 2 ^ 53"
    by (rule to_float_error)
  also have "\<bar>y * 60\<bar> = \<bar>y\<bar> * 60"
    by (simp add: abs_mult)
  finally have 3: "\<bar>to_float (y * 60) - y * 60\<bar> \<le> 2 * \<bar>q\<bar> * 60 / 2 ^ 53"
    using 2 by simp
  have 4: "\<bar>y * 60 - q * 60\<bar> = \<bar>y - q\<bar> * 60"
  proof -
    have "y * 60 - q * 60 = (y - q) * 60"
      by (simp only: left_diff_distrib)
    then have "\<bar>y * 60 - q * 60\<bar> = \<bar>(y - q) * 60\<bar>"
      by (rule arg_cong)
    also have "\<dots> = \<bar>y - q\<bar> * \<bar>60\<bar>"
      by (rule abs_mult)
    finally show ?thesis
      by simp
  qed
  have "\<bar>to_float (y * 60) - q * 60\<bar> \<le> \<bar>to_float (y * 60) - y * 60\<bar> + \<bar>y * 60 - q * 60\<bar>"
    by linarith
  also have "\<dots> = \<bar>to_float (y * 60) - y * 60\<bar> + \<bar>y - q\<bar> * 60"
    by (simp only: 4)
  also have "\<dots> \<le> 2 * \<bar>q\<bar> * 60 / 2 ^ 53 + \<bar>q\<bar> / 2 ^ 53 * 60"
    using 1 3 by simp
  also have "\<dots> \<le> \<bar>q\<bar> * 60 / 2 ^ 51"
    by simp
  finally show ?thesis
    by (simp add: float_mul_def float_div_def q_def y_def abs_mult)
qed

lemma base_time_error:
  "\<bar>of_int (round_py (float_mul (float_div x v) 60)) - x / v * 60\<bar>
     \<le> 1 / 2 + \<bar>x / v * 60\<bar> / 2 ^ 51"
  using round_py_nearest [of "float_mul (float_div x v) 60"] minutes_error [of x v]
  by linarith

text \<open>
  Claim C3. When start and goal snap to the same node and the search returns the path
  that holds this node alone, find_path succeeds with the coordinate of the node as the
  route, distance 0 and time 0: the loop over the segments does not run.
\<close>

theorem find_path_same_node:
  assumes "nearest_nodes L G (snd start_coords) (fst start_coords) = Inr n"
    and "nearest_nodes L G (snd goal_coords) (fst goal_coords) = Inr n"
    and "has_path L G n n = Inr True"
    and "astar_path L G n n ''length'' = Inr [n]"
    and "map_of (nodes G) n = Some a"
    and "mode \<in> {''car'', ''walk'', ''bike''}"
  shows "find_path L G start_coords goal_coords mode = Inr (Success [(node_y a, node_x a)] 0 0)
         \<and> success (Success [(node_y a, node_x a)] 0 0)"
proof -
  from assms(6) obtain v where "speeds mode = Some v"
    using speeds_dom by blast
  with assms(1-5) show ?thesis
    by (simp add: find_path_def round_ndigits_def round_py_def float_mul_def float_div_def
        to_float_zero)
qed

theorem find_path_same_node_witness:
  "nearest_nodes example_lib example_graph (snd (0, 1 / 1000)) (fst (0, 1 / 1000)) = Inr 1
   \<and> nearest_nodes example_lib example_graph (snd (0, 2 / 1000)) (fst (0, 2 / 1000)) = Inr 1
   \<and> has_path example_lib example_graph 1 1 = Inr True
   \<and> astar_path example_lib example_graph 1 1 ''length'' = Inr [1]
   \<and> map_of (nodes example_graph) 1 = Some \<lparr>node_y = 0, node_x = 0\<rparr>
   \<and> ''walk'' \<in> {''car'', ''walk'', ''bike''}
   \<and> find_path example_lib example_graph (0, 1 / 1000) (0, 2 / 1000) ''walk''
       = Inr (Success [(0, 0)] 0 0)"
proof -
  have h1: "nearest_nodes example_lib example_graph (snd (0, 1 / 1000)) (fst (0, 1 / 1000)) = Inr 1"
    and h2: "nearest_nodes example_lib example_graph (snd (0, 2 / 1000)) (fst (0, 2 / 1000)) = Inr 1"
    and h3: "has_path example_lib example_graph 1 1 = Inr True"
    and h4: "astar_path example_lib example_graph 1 1 ''length'' = Inr [1]"
    and h5: "map_of (nodes example_graph) 1 = Some \<lparr>node_y = 0, node_x = 0\<rparr>"
    and h6: "''walk'' \<in> {''car'', ''walk'', ''bike''}"
    by (simp_all add: example_lib_def example_graph_def)
  from find_path_same_node [OF h1 h2 h3 h4 h5 h6] h1 h2 h3 h4 h5 h6 show ?thesis
    by simp
qed

text \<open>
  Claim C5. In every successful result the time in minutes is the total distance (the
  float sum of the segment distances of the route) divided by the speed of the mode,
  times 60, both in float arithmetic, rounded to the nearest integer; the speed is 50 for
  the car, 5 for walking and 15 for the bicycle. The time differs from the exact value of
  distance / speed * 60 by at most 1/2 and the fraction 2 ^ -51 of that value.
\<close>

theorem find_path_base_time:
  assumes "find_path L G start_coords goal_coords mode = Inr r" and "success r"
  shows "\<exists>ks v. map (\<lambda>(a, b). distance_km L a b) (zip (route r) (tl (route r))) = map Inr ks
           \<and> speeds mode = Some v
           \<and> time_minutes r = round_py (float_mul (float_div (float_sum ks) (of_int v)) 60)
           \<and> \<bar>of_int (time_minutes r) - float_sum ks / of_int v * 60\<bar>
               \<le> 1 / 2 + \<bar>float_sum ks / of_int v * 60\<bar> / 2 ^ 51
           \<and> (mode = ''car'' \<and> v = 50 \<or> mode = ''walk'' \<and> v = 5 \<or> mode = ''bike'' \<and> v = 15)"
proof -
  from assms(2) obtain rc dk t where r: "r = Success rc dk t"
    by (cases r) auto
  from find_path_SuccessD [OF assms(1) [unfolded r]] obtain tot v where
    tot: "total_distance (distance_km L) 0 rc = Inr tot" and v: "speeds mode = Some v"
    and t: "t = round_py (float_mul (float_div tot (of_int v)) 60)"
    by blast
  from total_distance_float_sum [OF tot] obtain ks where
    ks: "map (\<lambda>(a, b). distance_km L a b) (zip rc (tl rc)) = map Inr ks" and s: "tot = float_sum ks"
    by auto
  from v have "mode = ''car'' \<and> v = 50 \<or> mode = ''walk'' \<and> v = 5 \<or> mode = ''bike'' \<and> v = 15"
    by (auto simp: speeds_def split: if_splits)
  then show ?thesis
    using r v t ks s base_time_error [of "float_sum ks" "of_int v"]
    by (intro exI [of _ ks] exI [of _ v]) simp
qed

text \<open>
  A segment of 5.125 km on foot: the quotient 1.025 is no float, the float product is
  61.49999999999999 and the time is 61 minutes.
\<close>

theorem find_path_base_time_witness:
  "find_path (example_lib\<lparr>distance_km := \<lambda>a b. Inr (5125 / 1000)\<rparr>) example_graph (0, 0) (0, 1 / 100)
       ''walk''
     = Inr (Success [(0, 0), (0, 1 / 100)] (to_float (512 / 100)) 61)
   \<and> success (Success [(0, 0), (0, 1 / 100)] (to_float (512 / 100)) 61)
   \<and> float_sum [5125 / 1000] = 5125 / 1000
   \<and> (\<exists>ks. time_minutes (Success [(0, 0), (0, 1 / 100)] (to_float (512 / 100)) 61)
              = round_py (float_mul (float_div (float_sum ks) (of_int 5)) 60))"
proof -
  have h1: "find_path (example_lib\<lparr>distance_km := \<lambda>a b. Inr (5125 / 1000)\<rparr>) example_graph (0, 0)
       (0, 1 / 100) ''walk''
     = Inr (Success [(0, 0), (0, 1 / 100)] (to_float (512 / 100)) 61)"
    by code_simp
  have h2: "success (Success [(0, 0), (0, 1 / 100)] (to_float (512 / 100)) 61)"
    by simp
  have h3: "float_sum [5125 / 1000] = 5125 / 1000"
    by code_simp
  from find_path_base_time [OF h1 h2] h1 h2 h3 show ?thesis
    by fastforce
qed




text \<open>
  Claim C9. Provided the search returns no empty path and the library's distance is never
  negative, every successful result has a route that is not empty and holds the
  coordinates of the path's nodes in order, a distance of at least 0 and a time of at
  least 0.
\<close>

theorem find_path_route_invariant:
  assumes "\<And>s t w p. astar_path L G s t w = Inr p \<Longrightarrow> p \<noteq> []"
    and "\<And>a b k. distance_km L a b = Inr k \<Longrightarrow> 0 \<le> k"
    and "find_path L G start_coords goal_coords mode = Inr r" and "success r"
  shows "route r \<noteq> []
         \<and> (\<exists>s g p. astar_path L G s g ''length'' = Inr p \<and> route_coords G p = Inr (route r))
         \<and> 0 \<le> distance r \<and> 0 \<le> time_minutes r"
proof -
  from assms(4) obtain rc dk t where r: "r = Success rc dk t"
    by (cases r) auto
  from find_path_SuccessD [OF assms(3) [unfolded r]] obtain s g p tot v where
    p: "astar_path L G s g ''length'' = Inr p" and rc: "route_coords G p = Inr rc"
    and tot: "total_distance (distance_km L) 0 rc = Inr tot" and v: "speeds mode = Some v"
    and dk: "dk = round_ndigits tot 2" and t: "t = round_py (float_mul (float_div tot (of_int v)) 60)"
    by blast
  from assms(1) [OF p] route_coords_length [OF rc] have "rc \<noteq> []"
    by auto
  moreover have tot0: "0 \<le> tot"
    using total_distance_nonneg [OF assms(2) tot] by simp
  moreover from tot0 speeds_pos [OF v] have "0 \<le> float_mul (float_div tot (of_int v)) 60"
    by (simp add: float_mul_def float_div_def to_float_nonneg)
  ultimately show ?thesis
    using r dk t p rc round_ndigits_nonneg round_py_nonneg by auto
qed

theorem find_path_route_invariant_witness:
  "find_path example_lib example_graph (0, 0) (0, 2 / 100) ''bike''
     = Inr (Success [(0, 0), (0, 1 / 100), (0, 1 / 50)] (to_float (111 / 50)) 9)
   \<and> success (Success [(0, 0), (0, 1 / 100), (0, 1 / 50)] (to_float (111 / 50)) 9)
   \<and> route (Success [(0, 0), (0, 1 / 100), (0, 1 / 50)] (to_float (111 / 50)) 9) \<noteq> []
   \<and> 0 \<le> distance (Success [(0, 0), (0, 1 / 100), (0, 1 / 50)] (to_float (111 / 50)) 9)
   \<and> 0 \<le> time_minutes (Success [(0, 0), (0, 1 / 100), (0, 1 / 50)] (to_float (111 / 50)) 9)"
proof -
  have h3: "find_path example_lib example_graph (0, 0) (0, 2 / 100) ''bike''
     = Inr (Success [(0, 0), (0, 1 / 100), (0, 1 / 50)] (to_float (111 / 50)) 9)"
    by code_simp
  have h4: "success (Success [(0, 0), (0, 1 / 100), (0, 1 / 50)] (to_float (111 / 50)) 9)"
    by simp
  have "route (Success [(0, 0), (0, 1 / 100), (0, 1 / 50)] (to_float (111 / 50)) 9) \<noteq> []
      \<and> (\<exists>s g p. astar_path example_lib example_graph s g ''length'' = Inr p
            \<and> route_coords example_graph p
                = Inr (route (Success [(0, 0), (0, 1 / 100), (0, 1 / 50)] (to_float (111 / 50)) 9)))
      \<and> 0 \<le> distance (Success [(0, 0), (0, 1 / 100), (0, 1 / 50)] (to_float (111 / 50)) 9)
      \<and> 0 \<le> time_minutes (Success [(0, 0), (0, 1 / 100), (0, 1 / 50)] (to_float (111 / 50)) 9)"
    by (rule find_path_route_invariant [OF _ _ h3 h4])
      (auto simp: example_lib_def split: if_splits)
  with h3 h4 show ?thesis
    by blast
qed

section \<open>SpatialIndex.nearest\<close>

lemma nearest_from_cases:
  "nearest_from geo c (bn, bd) ns = (rn, rd) \<Longrightarrow>
   (rn, rd) = (bn, bd) \<or> (\<exists>a. (rn, a) \<in> set ns \<and> rd = geo (node_y a, node_x a) c)"
proof (induction ns arbitrary: bn bd)
  case Nil
  then show ?case by simp
next
  case (Cons x ns)
  obtain n a where x: "x = (n, a)"
    by (cases x)
  let ?d = "geo (node_y a, node_x a) c"
  show ?case
  proof (cases "?d < bd \<or> (?d = bd \<and> n < bn)")
    case True
    with Cons.prems x have "nearest_from geo c (n, ?d) ns = (rn, rd)"
      by (simp add: Let_def)
    from Cons.IH [OF this] x show ?thesis
      by auto
  next
    case False
    with Cons.prems x have "nearest_from geo c (bn, bd) ns = (rn, rd)"
      by (simp add: Let_def)
    from Cons.IH [OF this] show ?thesis
      by auto
  qed
qed

lemma nearest_from_le_start:
  "nearest_from geo c (bn, bd) ns = (rn, rd) \<Longrightarrow> rd < bd \<or> (rd = bd \<and> rn \<le> bn)"
proof (induction ns arbitrary: bn bd)
  case Nil
  then show ?case by simp
next
  case (Cons x ns)
  obtain n a where x: "x = (n, a)"
    by (cases x)
  let ?d = "geo (node_y a, node_x a) c"
  show ?case
  proof (cases "?d < bd \<or> (?d = bd \<and> n < bn)")
    case True
    with Cons.prems x have "nearest_from geo c (n, ?d) ns = (rn, rd)"
      by (simp add: Let_def)
    from Cons.IH [OF this] True show ?thesis
      by auto
  next
    case False
    with Cons.prems x have "nearest_from geo c (bn, bd) ns = (rn, rd)"
      by (simp add: Let_def)
    from Cons.IH [OF this] show ?thesis
      by auto
  qed
qed

lemma nearest_from_le_all:
  "nearest_from geo c (bn, bd) ns = (rn, rd) \<Longrightarrow> (m, b) \<in> set ns \<Longrightarrow>
   rd < geo (node_y b, node_x b) c \<or> (rd = geo (node_y b, node_x b) c \<and> rn \<le> m)"
proof (induction ns arbitrary: bn bd)
  case Nil
  then show ?case by simp
next
  case (Cons x ns)
  obtain n a where x: "x = (n, a)"
    by (cases x)
  let ?d = "geo (node_y a, node_x a) c"
  let ?nb = "if ?d < bd \<or> (?d = bd \<and> n < bn) then (n, ?d) else (bn, bd)"
  from Cons.prems(1) x have run: "nearest_from geo c (fst ?nb, snd ?nb) ns = (rn, rd)"
    by (simp add: Let_def split: if_splits)
  show ?case
  proof (cases "(m, b) \<in> set ns")
    case True
    from Cons.IH [OF run True] show ?thesis .
  next
    case False
    with Cons.prems(2) x have mb: "m = n" "b = a"
      by auto
    from nearest_from_le_start [OF run] show ?thesis
      unfolding mb by (auto split: if_splits)
  qed
qed

lemma nearest_in_nodes: "nearest geo G c = Inr n \<Longrightarrow> n \<in> fst ` set (nodes G)"
proof (cases "nodes G")
  case Nil
  assume "nearest geo G c = Inr n"
  with Nil show ?thesis
    by (simp add: nearest_def)
next
  case (Cons x ns)
  assume res: "nearest geo G c = Inr n"
  obtain n0 a0 where x: "x = (n0, a0)"
    by (cases x)
  obtain rn rd where run: "nearest_from geo c (n0, geo (node_y a0, node_x a0) c) ns = (rn, rd)"
    by (cases "nearest_from geo c (n0, geo (node_y a0, node_x a0) c) ns")
  with res Cons x have "n = rn"
    by (simp add: nearest_def)
  with nearest_from_cases [OF run] Cons x show ?thesis
    by force
qed

text \<open>
  Claim C8. On a graph without nodes the snapping fails with EmptyGraph. On every other
  graph it returns a node of the graph, no node of the graph is strictly closer to the
  input, and among the nodes at the same distance it is the one with the lowest id.
\<close>

theorem nearest_correct:
  "(nodes G = [] \<and> nearest geo G c = Inl EmptyGraph)
   \<or> (\<exists>n a. nearest geo G c = Inr n \<and> (n, a) \<in> set (nodes G)
          \<and> (\<forall>m b. (m, b) \<in> set (nodes G) \<longrightarrow>
                geo (node_y a, node_x a) c < geo (node_y b, node_x b) c
                \<or> (geo (node_y a, node_x a) c = geo (node_y b, node_x b) c \<and> n \<le> m)))"
proof (cases "nodes G")
  case Nil
  then show ?thesis
    by (simp add: nearest_def)
next
  case (Cons x ns)
  obtain n0 a0 where x: "x = (n0, a0)"
    by (cases x)
  let ?d0 = "geo (node_y a0, node_x a0) c"
  obtain rn rd where run: "nearest_from geo c (n0, ?d0) ns = (rn, rd)"
    by (cases "nearest_from geo c (n0, ?d0) ns")
  from Cons x run have res: "nearest geo G c = Inr rn"
    by (simp add: nearest_def)
  from nearest_from_cases [OF run] obtain a where
    a: "(rn, a) \<in> set (nodes G)" and rd: "rd = geo (node_y a, node_x a) c"
    using Cons x by auto
  have "geo (node_y a, node_x a) c < geo (node_y b, node_x b) c
        \<or> (geo (node_y a, node_x a) c = geo (node_y b, node_x b) c \<and> rn \<le> m)"
    if "(m, b) \<in> set (nodes G)" for m b
  proof (cases "(m, b) \<in> set ns")
    case True
    from nearest_from_le_all [OF run True] rd show ?thesis
      by simp
  next
    case False
    with that Cons x have "m = n0" "b = a0"
      by auto
    with nearest_from_le_start [OF run] rd show ?thesis
      by auto
  qed
  with res a show ?thesis
    by blast
qed

theorem nearest_correct_witness:
  "nearest taxicab example_graph (0, 1 / 200) = Inr 1
   \<and> (2, \<lparr>node_y = 0, node_x = 1 / 100\<rparr>) \<in> set (nodes example_graph)
   \<and> (\<exists>a. (1, a) \<in> set (nodes example_graph)
          \<and> (taxicab (node_y a, node_x a) (0, 1 / 200) < taxicab (0, 1 / 100) (0, 1 / 200)
              \<or> (taxicab (node_y a, node_x a) (0, 1 / 200) = taxicab (0, 1 / 100) (0, 1 / 200)
                  \<and> (1::int) \<le> 2)))
   \<and> nearest taxicab \<lparr>nodes = [], edges = []\<rparr> (0, 0) = Inl EmptyGraph"
proof -
  have h1: "nearest taxicab example_graph (0, 1 / 200) = Inr 1"
    and h2: "(2, \<lparr>node_y = 0, node_x = 1 / 100\<rparr>) \<in> set (nodes example_graph)"
    and h3: "nodes example_graph \<noteq> []"
    by code_simp+
  from nearest_correct [of example_graph taxicab "(0, 1 / 200)"] h1 h3 obtain a where
    a: "(1, a) \<in> set (nodes example_graph)"
    and le: "\<And>m b. (m, b) \<in> set (nodes example_graph) \<Longrightarrow>
      taxicab (node_y a, node_x a) (0, 1 / 200) < taxicab (node_y b, node_x b) (0, 1 / 200)
      \<or> (taxicab (node_y a, node_x a) (0, 1 / 200) = taxicab (node_y b, node_x b) (0, 1 / 200)
          \<and> 1 \<le> m)"
    by auto
  from le [OF h2] a have "\<exists>a. (1, a) \<in> set (nodes example_graph)
          \<and> (taxicab (node_y a, node_x a) (0, 1 / 200) < taxicab (0, 1 / 100) (0, 1 / 200)
              \<or> (taxicab (node_y a, node_x a) (0, 1 / 200) = taxicab (0, 1 / 100) (0, 1 / 200)
                  \<and> (1::int) \<le> 2))"
    by auto
  moreover from nearest_correct [of "\<lparr>nodes = [], edges = []\<rparr>" taxicab "(0, 0)"]
  have "nearest taxicab \<lparr>nodes = [], edges = []\<rparr> (0, 0) = Inl EmptyGraph"
    by simp
  ultimately show ?thesis
    using h1 h2 by blast
qed

section \<open>PathSearch\<close>

subsection \<open>Walks\<close>

lemma walk_append: "walk G u (es @ fs) v = (\<exists>x. walk G u es x \<and> walk G x fs v)"
  by (induction es arbitrary: u) auto

lemma weight_simps [simp]:
  "weight [] = 0" "weight (e # es) = snd (snd e) + weight es" "weight (es @ fs) = weight es + weight fs"
  by (simp_all add: weight_def)

lemma consistent_walk: "consistent G h \<Longrightarrow> walk G u es v \<Longrightarrow> h u \<le> weight es + h v"
proof (induction es arbitrary: u)
  case Nil
  then show ?case by simp
next
  case (Cons e es)
  obtain a b w where e: "e = (a, b, w)"
    by (cases e)
  from Cons.prems e have "h u \<le> w + h b" and "walk G b es v"
    by (auto simp: consistent_def)
  with Cons.IH [OF Cons.prems(1), of b] e show ?case
    by simp
qed

lemma consistent_edge: "consistent G h \<Longrightarrow> (a, b, w) \<in> set (edges G) \<Longrightarrow> h a \<le> w + h b"
  by (force simp: consistent_def)

lemma consistent_zero: "consistent G (\<lambda>v. 0) = (\<forall>e \<in> set (edges G). 0 \<le> snd (snd e))"
  by (simp add: consistent_def)

subsection \<open>One relaxation step\<close>

lemma map_of_entry: "distinct (map fst xs) \<Longrightarrow> (map_of xs b = Some (g, p)) = ((b, g, p) \<in> set xs)"
  by simp

lemma update_keeps_nodes:
  "map (fst \<circ> (\<lambda>x. if fst x = b then (b, y) else x)) opn = map fst opn"
  by (induction opn) auto

lemma relax_distinct: "distinct (map fst opn) \<Longrightarrow> distinct (map fst (relax cls u gu e opn))"
  by (cases e) (auto simp: map_of_eq_None_iff update_keeps_nodes split: option.splits)

lemma relax_entries:
  "x \<in> set (relax cls u gu e opn) \<Longrightarrow>
   x \<in> set opn \<or> (x = (fst (snd e), gu + snd (snd e), Some u) \<and> fst e = u \<and> fst (snd e) \<notin> fst ` set cls)"
  by (cases e) (auto split: option.splits if_splits)

lemma relax_avoids:
  assumes "fst ` set opn \<inter> fst ` set cls = {}"
  shows "fst ` set (relax cls u gu e opn) \<inter> fst ` set cls = {}"
proof -
  have "fst x \<notin> fst ` set cls" if "x \<in> set (relax cls u gu e opn)" for x
    using relax_entries [OF that] assms by (cases x) force
  then show ?thesis
    by blast
qed

lemma relax_keeps:
  assumes "distinct (map fst opn)" and "(v, g, p) \<in> set opn"
  shows "\<exists>g' p'. (v, g', p') \<in> set (relax cls u gu e opn) \<and> g' \<le> g"
proof (cases e)
  case (fields a b w)
  show ?thesis
  proof (cases "a \<noteq> u \<or> b \<in> fst ` set cls")
    case True
    with fields assms(2) show ?thesis
      by auto
  next
    case False
    show ?thesis
    proof (cases "map_of opn b")
      case None
      with False fields assms(2) show ?thesis
        by auto
    next
      case (Some q)
      obtain gb pb where q: "q = (gb, pb)"
        by (cases q)
      show ?thesis
      proof (cases "gu + w < gb")
        case lt: True
        show ?thesis
        proof (cases "v = b")
          case True
          with assms Some q have "g = gb"
            by (simp add: map_of_entry)
          moreover have "(b, gu + w, Some u) \<in> set (relax cls u gu e opn)"
            using False fields Some q lt assms(2) True by force
          ultimately show ?thesis
            using lt True by (intro exI [of _ "gu + w"] exI [of _ "Some u"]) simp
        next
          case neq: False
          then have "(v, g, p) \<in> set (relax cls u gu e opn)"
            using False fields Some q lt assms(2) by force
          then show ?thesis
            by blast
        qed
      next
        case False
        with \<open>\<not> (a \<noteq> u \<or> b \<in> fst ` set cls)\<close> fields Some q assms(2) show ?thesis
          by auto
      qed
    qed
  qed
qed

lemma relax_target:
  assumes "distinct (map fst opn)" and "e = (u, b, w)" and "b \<notin> fst ` set cls"
  shows "\<exists>g' p'. (b, g', p') \<in> set (relax cls u gu e opn) \<and> g' \<le> gu + w"
proof (cases "map_of opn b")
  case None
  with assms show ?thesis
    by auto
next
  case (Some q)
  obtain gb pb where q: "q = (gb, pb)"
    by (cases q)
  with Some assms(1) have mem: "(b, gb, pb) \<in> set opn"
    by (simp add: map_of_entry)
  show ?thesis
  proof (cases "gu + w < gb")
    case True
    have "(b, gu + w, Some u) \<in> set (relax cls u gu e opn)"
      using assms(2,3) Some q True mem by force
    then show ?thesis
      by (intro exI [of _ "gu + w"] exI [of _ "Some u"]) simp
  next
    case False
    then have "(b, gb, pb) \<in> set (relax cls u gu e opn)"
      using assms(2,3) Some q mem by simp
    with False show ?thesis
      by (intro exI [of _ gb] exI [of _ pb]) simp
  qed
qed

subsection \<open>All edges of the expanded node\<close>

lemma fold_relax_distinct:
  "distinct (map fst opn) \<Longrightarrow> distinct (map fst (fold (relax cls u gu) es opn))"
  by (induction es arbitrary: opn) (simp_all add: relax_distinct)

lemma fold_relax_avoids:
  "fst ` set opn \<inter> fst ` set cls = {} \<Longrightarrow> fst ` set (fold (relax cls u gu) es opn) \<inter> fst ` set cls = {}"
  by (induction es arbitrary: opn) (simp_all add: relax_avoids)

lemma fold_relax_entries:
  "x \<in> set (fold (relax cls u gu) es opn) \<Longrightarrow>
   x \<in> set opn \<or> (\<exists>b w. (u, b, w) \<in> set es \<and> x = (b, gu + w, Some u) \<and> b \<notin> fst ` set cls)"
proof (induction es arbitrary: opn)
  case Nil
  then show ?case by simp
next
  case (Cons e es)
  from Cons.IH [of "relax cls u gu e opn"] Cons.prems
  consider "x \<in> set (relax cls u gu e opn)"
    | "\<exists>b w. (u, b, w) \<in> set es \<and> x = (b, gu + w, Some u) \<and> b \<notin> fst ` set cls"
    by auto
  then show ?case
  proof cases
    case 1
    from relax_entries [OF this] show ?thesis
      by (cases e) auto
  next
    case 2
    then show ?thesis
      by auto
  qed
qed

lemma fold_relax_keeps:
  "distinct (map fst opn) \<Longrightarrow> (v, g, p) \<in> set opn \<Longrightarrow>
   \<exists>g' p'. (v, g', p') \<in> set (fold (relax cls u gu) es opn) \<and> g' \<le> g"
proof (induction es arbitrary: opn g p)
  case Nil
  then show ?case by auto
next
  case (Cons e es)
  from relax_keeps [OF Cons.prems, of cls u gu e] obtain g1 p1 where
    1: "(v, g1, p1) \<in> set (relax cls u gu e opn)" and le: "g1 \<le> g"
    by blast
  from Cons.IH [OF relax_distinct [OF Cons.prems(1)] 1] obtain g' p' where
    "(v, g', p') \<in> set (fold (relax cls u gu) es (relax cls u gu e opn))" "g' \<le> g1"
    by blast
  with le show ?case
    by (intro exI [of _ g'] exI [of _ p']) simp
qed

lemma fold_relax_target:
  "distinct (map fst opn) \<Longrightarrow> (u, b, w) \<in> set es \<Longrightarrow> b \<notin> fst ` set cls \<Longrightarrow>
   \<exists>g' p'. (b, g', p') \<in> set (fold (relax cls u gu) es opn) \<and> g' \<le> gu + w"
proof (induction es arbitrary: opn)
  case Nil
  then show ?case by simp
next
  case (Cons e es)
  note d = relax_distinct [OF Cons.prems(1), of cls u gu e]
  show ?case
  proof (cases "(u, b, w) \<in> set es")
    case True
    from Cons.IH [OF d True Cons.prems(3)] show ?thesis
      by simp
  next
    case False
    with Cons.prems(2) have e: "e = (u, b, w)"
      by simp
    from relax_target [OF Cons.prems(1) e Cons.prems(3)] obtain g1 p1 where
      1: "(b, g1, p1) \<in> set (relax cls u gu e opn)" and le: "g1 \<le> gu + w"
      by blast
    from fold_relax_keeps [OF d 1] obtain g' p' where
      "(b, g', p') \<in> set (fold (relax cls u gu) es (relax cls u gu e opn))" "g' \<le> g1"
      by blast
    with le show ?thesis
      by (intro exI [of _ g'] exI [of _ p']) simp
  qed
qed

subsection \<open>The best entry and the way back\<close>

lemma better_score: "better h x y \<Longrightarrow> score h x \<le> score h y"
  by (cases x; cases y) (auto simp: better_def score_def)

lemma best_le_start: "score h (best h b xs) \<le> score h b"
proof (induction xs arbitrary: b)
  case Nil
  then show ?case by simp
next
  case (Cons x xs)
  show ?case
    using Cons.IH [of "if better h x b then x else b"] better_score [of h x b]
    by (auto split: if_splits)
qed

lemma best_min: "y \<in> set (b # xs) \<Longrightarrow> score h (best h b xs) \<le> score h y"
proof (induction xs arbitrary: b)
  case Nil
  then show ?case by simp
next
  case (Cons x xs)
  let ?b = "if better h x b then x else b"
  have step: "score h ?b \<le> score h b" "score h ?b \<le> score h x"
    using better_score [of h x b] by (auto simp: better_def score_def split: prod.splits)
  show ?case
  proof (cases "y \<in> set (?b # xs)")
    case True
    from Cons.IH [OF this] show ?thesis
      by simp
  next
    case False
    with Cons.prems have "y = b \<or> y = x"
      by (auto split: if_splits)
    with step best_le_start [of h ?b xs] show ?thesis
      by auto
  qed
qed

lemma same_node_same_entry:
  "distinct (map fst xs) \<Longrightarrow> x \<in> set xs \<Longrightarrow> y \<in> set xs \<Longrightarrow> fst x = fst y \<Longrightarrow> x = y"
  by (metis eq_key_imp_eq_value prod.collapse)

lemma rest_set:
  assumes "distinct (map fst xs)" and "b \<in> set xs"
  shows "set (filter (\<lambda>x. fst x \<noteq> fst b) xs) = set xs - {b}"
  using same_node_same_entry [OF assms(1) _ assms(2)] by auto

lemma ok_entry_mono: "ok_entry G s cls x \<Longrightarrow> ok_entry G s (y # cls) x"
  by (auto simp: ok_entry_def split: option.splits)

lemma backtrack_walk:
  "chain_ok G s cls \<Longrightarrow> ok_entry G s cls (v, g, p) \<Longrightarrow>
   \<exists>es. walk G s es v \<and> weight es = g \<and> s # map (fst \<circ> snd) es = rev (v # backtrack cls p)"
proof (induction cls arbitrary: v g p)
  case Nil
  then show ?case
    by (cases p) (auto simp: ok_entry_def intro: exI [of _ "[]"])
next
  case (Cons x cls)
  obtain c gc pc where x: "x = (c, gc, pc)"
    by (cases x)
  show ?case
  proof (cases p)
    case None
    with Cons.prems(2) show ?thesis
      by (auto simp: ok_entry_def intro: exI [of _ "[]"])
  next
    case (Some u)
    with Cons.prems(2) obtain gu pu w where
      mem: "(u, gu, pu) \<in> set (x # cls)" and edge: "(u, v, w) \<in> set (edges G)" and g: "g = gu + w"
      by (auto simp: ok_entry_def)
    from Cons.prems(1) x have okx: "ok_entry G s cls (c, gc, pc)" and fresh: "c \<notin> fst ` set cls"
      and chain: "chain_ok G s cls"
      by simp_all
    show ?thesis
    proof (cases "c = u")
      case True
      with mem fresh x have "gu = gc" "pu = pc"
        by force+
      from Cons.IH [OF chain okx] obtain es where
        es: "walk G s es c" "weight es = gc" "s # map (fst \<circ> snd) es = rev (c # backtrack cls pc)"
        by blast
      have "walk G s (es @ [(u, v, w)]) v"
        using es(1) edge True by (auto simp: walk_append)
      moreover have "weight (es @ [(u, v, w)]) = g"
        using es(2) g \<open>gu = gc\<close> by simp
      moreover have "s # map (fst \<circ> snd) (es @ [(u, v, w)]) = rev (v # backtrack (x # cls) p)"
        using es(3) x Some True by simp
      ultimately show ?thesis
        by blast
    next
      case False
      with mem x have "(u, gu, pu) \<in> set cls"
        by auto
      with edge g have "ok_entry G s cls (v, g, Some u)"
        by (auto simp: ok_entry_def)
      from Cons.IH [OF chain this] x Some False show ?thesis
        by simp
    qed
  qed
qed

subsection \<open>The invariants hold at the start and after every expansion\<close>

lemma inv_reach_start: "inv_reach G s t [(s, 0, None)] []"
  by (simp add: inv_reach_def ok_entry_def)

lemma inv_opt_start: "inv_opt G h s [(s, 0, None)] []"
  by (simp add: inv_opt_def)

lemma node_kept:
  assumes d: "distinct (map fst opn)" and b: "b \<in> set opn" and v: "v \<in> fst ` set opn \<union> fst ` set cls"
  shows "v \<in> fst ` set (fold (relax (b # cls) (fst b) gu) es (filter (\<lambda>x. fst x \<noteq> fst b) opn))
           \<union> fst ` set (b # cls)"
proof (cases "v \<in> fst ` set (b # cls)")
  case True
  then show ?thesis by blast
next
  case False
  with v obtain g p where "(v, g, p) \<in> set opn" and "v \<noteq> fst b"
    by auto
  then have "(v, g, p) \<in> set (filter (\<lambda>x. fst x \<noteq> fst b) opn)"
    by simp
  from fold_relax_keeps [OF distinct_map_filter [OF d] this] show ?thesis
    by force
qed

lemma entry_kept:
  assumes d: "distinct (map fst opn)" and b: "b \<in> set opn"
    and v: "(v, g, p) \<in> set opn \<union> set cls"
  shows "\<exists>g' p'. (v, g', p') \<in> set (fold (relax (b # cls) (fst b) gu) es (filter (\<lambda>x. fst x \<noteq> fst b) opn))
           \<union> set (b # cls) \<and> g' \<le> g"
proof (cases "(v, g, p) \<in> set (b # cls)")
  case True
  then show ?thesis
    by (intro exI [of _ g] exI [of _ p]) blast
next
  case False
  with v have mem: "(v, g, p) \<in> set opn" and "(v, g, p) \<noteq> b"
    by auto
  with same_node_same_entry [OF d mem b] have "v \<noteq> fst b"
    by auto
  with mem have "(v, g, p) \<in> set (filter (\<lambda>x. fst x \<noteq> fst b) opn)"
    by simp
  from fold_relax_keeps [OF distinct_map_filter [OF d] this] show ?thesis
    by blast
qed

lemma inv_reach_step:
  assumes inv: "inv_reach G s t opn cls" and b: "b \<in> set opn" and nt: "fst b \<noteq> t"
  shows "inv_reach G s t
           (fold (relax (b # cls) (fst b) (fst (snd b))) (edges G) (filter (\<lambda>x. fst x \<noteq> fst b) opn))
           (b # cls)"
proof -
  let ?rest = "filter (\<lambda>x. fst x \<noteq> fst b) opn"
  let ?cls = "b # cls"
  let ?opn = "fold (relax ?cls (fst b) (fst (snd b))) (edges G) ?rest"
  from inv have d: "distinct (map fst opn)" and disj: "fst ` set opn \<inter> fst ` set cls = {}"
    and t: "t \<notin> fst ` set cls" and s: "s \<in> fst ` set opn \<union> fst ` set cls"
    and closure: "\<And>e. e \<in> set (edges G) \<Longrightarrow> fst e \<in> fst ` set cls
        \<Longrightarrow> fst (snd e) \<in> fst ` set opn \<union> fst ` set cls"
    and chain: "chain_ok G s cls" and ok: "\<And>x. x \<in> set opn \<Longrightarrow> ok_entry G s cls x"
    by (auto simp: inv_reach_def)
  have drest: "distinct (map fst ?rest)"
    by (rule distinct_map_filter [OF d])
  have fresh: "fst b \<notin> fst ` set cls"
    using b disj by auto
  have 1: "distinct (map fst ?opn)"
    by (rule fold_relax_distinct [OF drest])
  have "fst ` set ?rest \<inter> fst ` set ?cls = {}"
    using disj by auto
  then have 2: "fst ` set ?opn \<inter> fst ` set ?cls = {}"
    by (rule fold_relax_avoids)
  have 3: "t \<notin> fst ` set ?cls"
    using t nt by auto
  have 4: "s \<in> fst ` set ?opn \<union> fst ` set ?cls"
    by (rule node_kept [OF d b s])
  have 5: "fst (snd e) \<in> fst ` set ?opn \<union> fst ` set ?cls"
    if e: "e \<in> set (edges G)" and src: "fst e \<in> fst ` set ?cls" for e
  proof (cases "fst e \<in> fst ` set cls")
    case True
    from node_kept [OF d b closure [OF e True]] show ?thesis .
  next
    case False
    with src have eq: "fst e = fst b"
      by simp
    show ?thesis
    proof (cases "fst (snd e) \<in> fst ` set ?cls")
      case True
      then show ?thesis by blast
    next
      case False
      from e eq have "(fst b, fst (snd e), snd (snd e)) \<in> set (edges G)"
        by (metis prod.collapse)
      from fold_relax_target [OF drest this False] show ?thesis
        by force
    qed
  qed
  have 6: "chain_ok G s ?cls"
    using chain ok [OF b] fresh by simp
  have 7: "ok_entry G s ?cls x" if "x \<in> set ?opn" for x
    using fold_relax_entries [OF that]
  proof
    assume "x \<in> set ?rest"
    then have "x \<in> set opn"
      by simp
    from ok_entry_mono [OF ok [OF this]] show ?thesis .
  next
    assume "\<exists>v w. (fst b, v, w) \<in> set (edges G) \<and> x = (v, fst (snd b) + w, Some (fst b))
        \<and> v \<notin> fst ` set ?cls"
    then obtain v w where vw: "(fst b, v, w) \<in> set (edges G)" "x = (v, fst (snd b) + w, Some (fst b))"
      by blast
    have "(fst b, fst (snd b), snd (snd b)) \<in> set ?cls"
      by simp
    with vw(1) have "\<exists>gu pu w'. (fst b, gu, pu) \<in> set ?cls \<and> (fst b, v, w') \<in> set (edges G)
        \<and> fst (snd b) + w = gu + w'"
      by blast
    with vw(2) show ?thesis
      unfolding ok_entry_def by simp
  qed
  from 1 2 3 4 5 6 7 show ?thesis
    unfolding inv_reach_def by blast
qed

lemma inv_opt_step:
  assumes inv: "inv_reach G s t opn cls" and opt: "inv_opt G h s opn cls" and con: "consistent G h"
    and b: "b \<in> set opn" and mn: "\<And>y. y \<in> set opn \<Longrightarrow> score h b \<le> score h y"
  shows "inv_opt G h s
           (fold (relax (b # cls) (fst b) (fst (snd b))) (edges G) (filter (\<lambda>x. fst x \<noteq> fst b) opn))
           (b # cls)"
proof -
  let ?rest = "filter (\<lambda>x. fst x \<noteq> fst b) opn"
  let ?cls = "b # cls"
  let ?opn = "fold (relax ?cls (fst b) (fst (snd b))) (edges G) ?rest"
  from inv have d: "distinct (map fst opn)"
    by (simp add: inv_reach_def)
  have drest: "distinct (map fst ?rest)"
    by (rule distinct_map_filter [OF d])
  from opt obtain g0 p0 where s0: "(s, g0, p0) \<in> set opn \<union> set cls" "g0 \<le> 0"
    by (auto simp: inv_opt_def)
  from opt have relaxed: "\<And>x e. x \<in> set cls \<Longrightarrow> e \<in> set (edges G) \<Longrightarrow> fst e = fst x \<Longrightarrow>
      \<exists>gz pz. (fst (snd e), gz, pz) \<in> set opn \<union> set cls \<and> gz \<le> fst (snd x) + snd (snd e)"
    by (simp add: inv_opt_def)
  from opt have mono: "\<And>z y. z \<in> set cls \<Longrightarrow> y \<in> set opn \<Longrightarrow> score h z \<le> score h y"
    by (simp add: inv_opt_def)
  have 1: "\<exists>g p. (s, g, p) \<in> set ?opn \<union> set ?cls \<and> g \<le> 0"
  proof -
    from entry_kept [OF d b s0(1)] obtain g' p' where
      "(s, g', p') \<in> set ?opn \<union> set ?cls" "g' \<le> g0"
      by blast
    with s0(2) show ?thesis
      by (intro exI [of _ g'] exI [of _ p']) simp
  qed
  have 2: "\<exists>gz pz. (fst (snd e), gz, pz) \<in> set ?opn \<union> set ?cls \<and> gz \<le> fst (snd x) + snd (snd e)"
    if x: "x \<in> set ?cls" and e: "e \<in> set (edges G)" and src: "fst e = fst x" for x e
  proof (cases "x \<in> set cls")
    case True
    from relaxed [OF True e src] obtain gz pz where
      z: "(fst (snd e), gz, pz) \<in> set opn \<union> set cls" and le: "gz \<le> fst (snd x) + snd (snd e)"
      by blast
    from entry_kept [OF d b z] obtain g' p' where
      "(fst (snd e), g', p') \<in> set ?opn \<union> set ?cls" "g' \<le> gz"
      by blast
    with le show ?thesis
      by (intro exI [of _ g'] exI [of _ p']) simp
  next
    case False
    with x have xb: "x = b"
      by simp
    from e src xb have edge: "(fst b, fst (snd e), snd (snd e)) \<in> set (edges G)"
      by (metis prod.collapse)
    from consistent_edge [OF con edge]
    have hb: "h (fst b) \<le> snd (snd e) + h (fst (snd e))" .
    show ?thesis
    proof (cases "fst (snd e) \<in> fst ` set ?cls")
      case outside: False
      from fold_relax_target [OF drest edge outside] xb show ?thesis
        by blast
    next
      case True
      then obtain z where z: "z \<in> set ?cls" and zn: "fst z = fst (snd e)"
        by (metis imageE)
      have "score h z \<le> score h b"
      proof (cases "z = b")
        case True
        then show ?thesis by simp
      next
        case False
        with z have "z \<in> set cls"
          by simp
        from mono [OF this b] show ?thesis .
      qed
      with hb zn have "fst (snd z) \<le> fst (snd b) + snd (snd e)"
        by (simp add: score_def)
      moreover have "(fst (snd e), fst (snd z), snd (snd z)) \<in> set ?opn \<union> set ?cls"
        using z zn by (metis UnI2 prod.collapse)
      ultimately show ?thesis
        using xb by blast
    qed
  qed
  have low: "score h z \<le> score h b" if "z \<in> set ?cls" for z
  proof (cases "z = b")
    case True
    then show ?thesis by simp
  next
    case False
    with that have "z \<in> set cls"
      by simp
    from mono [OF this b] show ?thesis .
  qed
  have high: "score h b \<le> score h y" if "y \<in> set ?opn" for y
    using fold_relax_entries [OF that]
  proof
    assume "y \<in> set ?rest"
    then have "y \<in> set opn"
      by simp
    from mn [OF this] show ?thesis .
  next
    assume "\<exists>v w. (fst b, v, w) \<in> set (edges G) \<and> y = (v, fst (snd b) + w, Some (fst b))
        \<and> v \<notin> fst ` set ?cls"
    then obtain v w where edge: "(fst b, v, w) \<in> set (edges G)"
      and y: "y = (v, fst (snd b) + w, Some (fst b))"
      by blast
    from consistent_edge [OF con edge] y show ?thesis
      by (simp add: score_def)
  qed
  have 3: "score h z \<le> score h y" if "z \<in> set ?cls" and "y \<in> set ?opn" for z y
    using low [OF that(1)] high [OF that(2)] by simp
  from 1 2 3 show ?thesis
    unfolding inv_opt_def by blast
qed

text \<open>With an empty open set, everything that can be reached from a closed node is closed.\<close>

lemma closed_reach:
  assumes inv: "inv_reach G s t [] cls"
  shows "walk G u es v \<Longrightarrow> u \<in> fst ` set cls \<Longrightarrow> v \<in> fst ` set cls"
proof (induction es arbitrary: u)
  case Nil
  then show ?case by simp
next
  case (Cons e es)
  obtain a b w where e: "e = (a, b, w)"
    by (cases e)
  with Cons.prems have edge: "(u, b, w) \<in> set (edges G)" and rest: "walk G b es v"
    by auto
  from inv edge Cons.prems(2) have "b \<in> fst ` set cls"
    by (force simp: inv_reach_def)
  from Cons.IH [OF rest this] show ?case .
qed

text \<open>Every walk from the start ends in a closed node that is cheap enough, or passes an
  open node that is.\<close>

lemma frontier:
  assumes opt: "inv_opt G h s opn cls"
  shows "walk G s es v \<Longrightarrow>
         (\<exists>g p. (v, g, p) \<in> set cls \<and> g \<le> weight es)
         \<or> (\<exists>es1 es2 y g p. es = es1 @ es2 \<and> walk G y es2 v \<and> (y, g, p) \<in> set opn \<and> g \<le> weight es1)"
proof (induction es arbitrary: v rule: rev_induct)
  case Nil
  then have "v = s"
    by simp
  with opt obtain g p where "(v, g, p) \<in> set opn \<union> set cls" "g \<le> 0"
    by (auto simp: inv_opt_def)
  then show ?case
    by (auto intro: exI [of _ "[]"])
next
  case (snoc e es)
  obtain a b w where e: "e = (a, b, w)"
    by (cases e)
  from snoc.prems e have pre: "walk G s es a" and edge: "(a, v, w) \<in> set (edges G)" and bv: "b = v"
    by (auto simp: walk_append)
  from snoc.IH [OF pre] show ?case
  proof
    assume "\<exists>g p. (a, g, p) \<in> set cls \<and> g \<le> weight es"
    then obtain g p where a: "(a, g, p) \<in> set cls" and g: "g \<le> weight es"
      by blast
    from opt a edge obtain gz pz where
      z: "(v, gz, pz) \<in> set opn \<union> set cls" and le: "gz \<le> g + w"
      by (fastforce simp: inv_opt_def)
    from le g e have le': "gz \<le> weight (es @ [e])"
      by simp
    from z show ?thesis
    proof
      assume "(v, gz, pz) \<in> set cls"
      with le' show ?thesis
        by blast
    next
      assume "(v, gz, pz) \<in> set opn"
      moreover have "walk G v [] v"
        by simp
      ultimately show ?thesis
        using le' by (metis append_Nil2)
    qed
  next
    assume "\<exists>es1 es2 y g p. es = es1 @ es2 \<and> walk G y es2 a \<and> (y, g, p) \<in> set opn \<and> g \<le> weight es1"
    then obtain es1 es2 y g p where
      split: "es = es1 @ es2" and w2: "walk G y es2 a" and y: "(y, g, p) \<in> set opn" and g: "g \<le> weight es1"
      by blast
    have "walk G y (es2 @ [e]) v"
      using w2 edge e bv by (auto simp: walk_append)
    moreover have "es @ [e] = es1 @ (es2 @ [e])"
      using split by simp
    ultimately show ?thesis
      using y g by blast
  qed
qed

subsection \<open>The search loop\<close>

declare astar_loop.simps(2) [simp del]

lemma astar_loop_pop:
  "astar_loop G h goal (e # es) cls =
     (if fst (best h e es) = goal
      then Inr (rev (fst (best h e es) # backtrack cls (snd (snd (best h e es)))))
      else if fst (best h e es) \<in> fst ` set cls
        then astar_loop G h goal (filter (\<lambda>x. fst x \<noteq> fst (best h e es)) (e # es)) cls
      else astar_loop G h goal
             (fold (relax (best h e es # cls) (fst (best h e es)) (fst (snd (best h e es))))
                (edges G) (filter (\<lambda>x. fst x \<noteq> fst (best h e es)) (e # es)))
             (best h e es # cls))"
  by (simp only: astar_loop.simps(2) Let_def)

lemma astar_loop_goal:
  "fst (best h e es) = goal \<Longrightarrow>
   astar_loop G h goal (e # es) cls = Inr (rev (goal # backtrack cls (snd (snd (best h e es)))))"
  by (subst astar_loop_pop) simp

lemma astar_loop_expand:
  "fst (best h e es) \<noteq> goal \<Longrightarrow> fst (best h e es) \<notin> fst ` set cls \<Longrightarrow>
   astar_loop G h goal (e # es) cls =
   astar_loop G h goal
     (fold (relax (best h e es # cls) (fst (best h e es)) (fst (snd (best h e es))))
        (edges G) (filter (\<lambda>x. fst x \<noteq> fst (best h e es)) (e # es)))
     (best h e es # cls)"
  by (subst astar_loop_pop) simp

lemma open_not_closed:
  "inv_reach G s t opn cls \<Longrightarrow> b \<in> set opn \<Longrightarrow> fst b \<notin> fst ` set cls"
  by (auto simp: inv_reach_def)

lemma goal_popped:
  assumes inv: "inv_reach G s t opn cls" and b: "b \<in> set opn" and t: "fst b = t"
  shows "\<exists>es. walk G s es t \<and> weight es = fst (snd b)
           \<and> s # map (fst \<circ> snd) es = rev (t # backtrack cls (snd (snd b)))"
proof -
  from inv b have "chain_ok G s cls" and "ok_entry G s cls b"
    by (auto simp: inv_reach_def)
  then have "ok_entry G s cls (t, fst (snd b), snd (snd b))"
    using t by (metis prod.collapse)
  from backtrack_walk [OF \<open>chain_ok G s cls\<close> this] show ?thesis .
qed

lemma astar_loop_reach:
  "inv_reach G s t opn cls \<Longrightarrow>
   (astar_loop G h t opn cls = Inl NoPathFound \<and> (\<forall>es. \<not> walk G s es t))
   \<or> (\<exists>es. astar_loop G h t opn cls = Inr (s # map (fst \<circ> snd) es) \<and> walk G s es t)"
proof (induction G h t opn cls rule: astar_loop.induct)
  case (1 G h goal cls)
  from 1 have s: "s \<in> fst ` set cls" and g: "goal \<notin> fst ` set cls"
    by (auto simp: inv_reach_def)
  have "\<not> walk G s es goal" for es
    using closed_reach [OF 1 _ s, of es goal] g by blast
  then show ?case
    by simp
next
  case (2 G h goal e es cls)
  let ?b = "best h e es"
  have b: "?b \<in> set (e # es)"
    by (rule best_in)
  show ?case
  proof (cases "fst ?b = goal")
    case True
    from goal_popped [OF "2.prems" b True] obtain fs where
      "walk G s fs goal" "s # map (fst \<circ> snd) fs = rev (goal # backtrack cls (snd (snd ?b)))"
      by blast
    moreover have "astar_loop G h goal (e # es) cls = Inr (rev (goal # backtrack cls (snd (snd ?b))))"
      using True by (rule astar_loop_goal)
    ultimately have "\<exists>fs. astar_loop G h goal (e # es) cls = Inr (s # map (fst \<circ> snd) fs)
        \<and> walk G s fs goal"
      by (intro exI [of _ fs]) (simp only: simp_thms)
    then show ?thesis ..
  next
    case False
    note fresh = open_not_closed [OF "2.prems" b]
    from inv_reach_step [OF "2.prems" b False]
    have "inv_reach G s goal
        (fold (relax (?b # cls) (fst ?b) (fst (snd ?b))) (edges G) (filter (\<lambda>x. fst x \<noteq> fst ?b) (e # es)))
        (?b # cls)" .
    from "2.IH"(2) [OF refl refl refl False fresh this] show ?thesis
      by (simp only: astar_loop_expand [OF False fresh])
  qed
qed

lemma astar_loop_opt:
  "inv_reach G s t opn cls \<Longrightarrow> inv_opt G h s opn cls \<Longrightarrow> consistent G h \<Longrightarrow>
   astar_loop G h t opn cls = Inr p \<Longrightarrow>
   \<exists>es. walk G s es t \<and> s # map (fst \<circ> snd) es = p \<and> (\<forall>fs. walk G s fs t \<longrightarrow> weight es \<le> weight fs)"
proof (induction G h t opn cls rule: astar_loop.induct)
  case (1 G h goal cls)
  then show ?case by simp
next
  case (2 G h goal e es cls)
  let ?b = "best h e es"
  have b: "?b \<in> set (e # es)"
    by (rule best_in)
  have mn: "score h ?b \<le> score h y" if "y \<in> set (e # es)" for y
    using that by (rule best_min)
  show ?case
  proof (cases "fst ?b = goal")
    case True
    from goal_popped [OF "2.prems"(1) b True] obtain fs where
      fs: "walk G s fs goal" "weight fs = fst (snd ?b)"
        "s # map (fst \<circ> snd) fs = rev (goal # backtrack cls (snd (snd ?b)))"
      by blast
    have "weight fs \<le> weight ds" if ds: "walk G s ds goal" for ds
      using frontier [OF "2.prems"(2) ds]
    proof
      assume "\<exists>g q. (goal, g, q) \<in> set cls \<and> g \<le> weight ds"
      then have "goal \<in> fst ` set cls"
        by force
      with "2.prems"(1) show ?thesis
        by (simp add: inv_reach_def)
    next
      assume "\<exists>es1 es2 y g q. ds = es1 @ es2 \<and> walk G y es2 goal \<and> (y, g, q) \<in> set (e # es)
          \<and> g \<le> weight es1"
      then obtain es1 es2 y g q where
        split: "ds = es1 @ es2" and w2: "walk G y es2 goal" and y: "(y, g, q) \<in> set (e # es)"
        and g: "g \<le> weight es1"
        by blast
      from mn [OF y] True have "fst (snd ?b) + h goal \<le> g + h y"
        by (simp add: score_def)
      moreover from consistent_walk [OF "2.prems"(3) w2] have "h y \<le> weight es2 + h goal" .
      ultimately show ?thesis
        using g fs(2) split by simp
    qed
    moreover have "astar_loop G h goal (e # es) cls = Inr (rev (goal # backtrack cls (snd (snd ?b))))"
      using True by (rule astar_loop_goal)
    with "2.prems"(4) fs(3) have "s # map (fst \<circ> snd) fs = p"
      by (simp only: sum.inject)
    ultimately show ?thesis
      using fs(1) by blast
  next
    case False
    note fresh = open_not_closed [OF "2.prems"(1) b]
    note r = inv_reach_step [OF "2.prems"(1) b False]
    note opt = inv_opt_step [OF "2.prems"(1,2,3) b mn]
    from "2.prems"(4) have
      "astar_loop G h goal
         (fold (relax (?b # cls) (fst ?b) (fst (snd ?b))) (edges G) (filter (\<lambda>x. fst x \<noteq> fst ?b) (e # es)))
         (?b # cls) = Inr p"
      by (simp only: astar_loop_expand [OF False fresh])
    from "2.IH"(2) [OF refl refl refl False fresh r opt "2.prems"(3) this] show ?thesis .
  qed
qed

lemma findPath_cases:
  assumes "s \<in> fst ` set (nodes G)" and "t \<in> fst ` set (nodes G)"
  shows "(findPath h G s t = Inl NoPathFound \<and> (\<forall>es. \<not> walk G s es t))
         \<or> (\<exists>es. findPath h G s t = Inr (walk_nodes s es) \<and> walk G s es t)"
  using astar_loop_reach [where h = "\<lambda>v. h v t" and G = G and s = s and t = t, OF inv_reach_start] assms
  by (simp add: findPath_def walk_nodes_def comp_def)

lemma findPath_same_node: "s \<in> fst ` set (nodes G) \<Longrightarrow> findPath h G s s = Inr [s]"
  by (simp add: findPath_def astar_loop_goal)

text \<open>
  Claim C1. When the search step of find_path succeeds, the returned node path is the
  node sequence of a walk of stored edges from start to goal, and the summed lengths of
  this walk are at most the summed lengths of any walk from start to goal. The heuristic
  is assumed consistent with the stored lengths, as section 4.3 of the spec says it is;
  for the call in find_path, which passes no heuristic, this means that no length is
  negative.
\<close>

theorem astar_path_optimal:
  assumes "consistent G (\<lambda>v. h v t)" and "astar_path (spec_lib geo h) G s t ''length'' = Inr p"
  shows "\<exists>es. walk G s es t \<and> walk_nodes s es = p \<and> (\<forall>fs. walk G s fs t \<longrightarrow> weight es \<le> weight fs)"
proof -
  from assms(2) have "findPath h G s t = Inr p"
    by (simp add: spec_lib_def)
  then have "astar_loop G (\<lambda>v. h v t) t [(s, 0, None)] [] = Inr p"
    by (simp add: findPath_def split: if_splits)
  from astar_loop_opt [OF inv_reach_start inv_opt_start assms(1) this] show ?thesis
    by (simp add: walk_nodes_def comp_def)
qed

theorem astar_path_optimal_witness:
  "consistent detour_graph (\<lambda>v. 0)
   \<and> astar_path (spec_lib taxicab (\<lambda>u v. 0)) detour_graph 1 3 ''length'' = Inr [1, 4, 2, 3]
   \<and> walk detour_graph 1 [(1, 2, 3), (2, 3, 4)] 3
   \<and> (\<exists>es. walk detour_graph 1 es 3 \<and> walk_nodes 1 es = [1, 4, 2, 3]
          \<and> weight es \<le> weight [(1, 2, 3), (2, 3, 4)])"
proof -
  have h1: "consistent detour_graph (\<lambda>v. 0)"
    by (simp add: consistent_def detour_graph_def)
  have h2: "astar_path (spec_lib taxicab (\<lambda>u v. 0)) detour_graph 1 3 ''length'' = Inr [1, 4, 2, 3]"
    by code_simp
  have h3: "walk detour_graph 1 [(1, 2, 3), (2, 3, 4)] 3"
    by (simp add: detour_graph_def)
  from astar_path_optimal [where h = "\<lambda>u v. 0" and geo = taxicab, OF h1 h2] h1 h2 h3 show ?thesis
    by blast
qed

text \<open>
  Claim C2. With start and goal snapped to the nodes s and t, find_path returns a result
  that is no success if and only if no chain of edges leads from s to t; the result is
  then the failure record, which holds no route.
\<close>

theorem find_path_fails_iff_unreachable:
  assumes "nearest geo G start_coords = Inr s" and "nearest geo G goal_coords = Inr t"
  shows "(\<exists>r. find_path (spec_lib geo h) G start_coords goal_coords mode = Inr r \<and> \<not> success r)
         = (\<forall>es. \<not> walk G s es t)"
proof -
  have s: "nearest_nodes (spec_lib geo h) G (snd start_coords) (fst start_coords) = Inr s"
    and t: "nearest_nodes (spec_lib geo h) G (snd goal_coords) (fst goal_coords) = Inr t"
    using assms by (simp_all add: spec_lib_def)
  from findPath_cases [OF nearest_in_nodes [OF assms(1)] nearest_in_nodes [OF assms(2)], of h]
  show ?thesis
  proof
    assume a: "findPath h G s t = Inl NoPathFound \<and> (\<forall>es. \<not> walk G s es t)"
    then have "has_path (spec_lib geo h) G s t = Inr False"
      by (simp add: spec_lib_def)
    with s t have "find_path (spec_lib geo h) G start_coords goal_coords mode
        = Inr (Failure ''No path found between these points.'')"
      by (simp add: find_path_def)
    with a show ?thesis
      by simp
  next
    assume "\<exists>es. findPath h G s t = Inr (walk_nodes s es) \<and> walk G s es t"
    then obtain es where f: "findPath h G s t = Inr (walk_nodes s es)" and w: "walk G s es t"
      by blast
    from f have "has_path (spec_lib geo h) G s t = Inr True"
      by (simp add: spec_lib_def)
    with s t have "find_path (spec_lib geo h) G start_coords goal_coords mode = Inr r \<Longrightarrow> success r" for r
      by (auto simp: find_path_def split: sum.splits option.splits)
    with w show ?thesis
      by blast
  qed
qed

theorem find_path_fails_iff_unreachable_witness:
  "nearest taxicab islands_graph (0, 0) = Inr 1
   \<and> nearest taxicab islands_graph (1, 1) = Inr 3
   \<and> find_path (spec_lib taxicab (\<lambda>u v. 0)) islands_graph (0, 0) (1, 1) ''walk''
       = Inr (Failure ''No path found between these points.'')
   \<and> (\<forall>es. \<not> walk islands_graph 1 es 3)"
proof -
  have h1: "nearest taxicab islands_graph (0, 0) = Inr 1"
    and h2: "nearest taxicab islands_graph (1, 1) = Inr 3"
    by code_simp+
  have h3: "find_path (spec_lib taxicab (\<lambda>u v. 0)) islands_graph (0, 0) (1, 1) ''walk''
       = Inr (Failure ''No path found between these points.'')"
    by code_simp
  from find_path_fails_iff_unreachable [where h = "\<lambda>u v. 0" and mode = "''walk''", OF h1 h2] h3
  have "\<forall>es. \<not> walk islands_graph 1 es 3"
    by simp
  with h1 h2 h3 show ?thesis
    by blast
qed

end
